theory Spec2Isabelle
  imports Main "HOL-Library.Word"
begin

unbundle bit_operations_syntax

section \<open>The dynamic memory manager (memmgr): data model\<close>

text \<open>
  The heap of the memory manager is a range of the data segment.  A word of the heap is
  an \<open>unsigned long\<close> of eight bytes (\<open>TYPE\<close>, \<open>TYPE_SIZE\<close>); pointers are 64-bit
  byte addresses and \<open>void*\<close> arithmetic counts bytes.  Both are modelled as \<open>64 word\<close>,
  so that every addition and subtraction wraps as it does in C.

  Memory is a function from the byte address of a word to the word stored there.  All
  accesses of the memory manager go through \<open>GET\<close> and \<open>PUT\<close> at addresses that are
  \<open>heap_start\<close> plus a multiple of eight, so words never overlap; a pointer that is not a
  multiple of eight is outside this model.
\<close>

type_synonym addr = "64 word"
type_synonym heap_word = "64 word"
type_synonym memory = "addr \<Rightarrow> heap_word"

definition TYPE_SIZE :: "64 word" where
  "TYPE_SIZE = 8"

definition ALLOC :: heap_word where
  "ALLOC = 1"

definition FREE :: heap_word where
  "FREE = 0"

definition STATUS_MASK :: heap_word where
  "STATUS_MASK = 7"

definition SIZE_MASK :: heap_word where
  "SIZE_MASK = NOT STATUS_MASK"

definition CHUNKSIZE :: "64 word" where
  "CHUNKSIZE = 4096"

definition BS :: "64 word" where
  "BS = 32"

definition INITCHUNK :: "64 word" where
  "INITCHUNK = push_bit 4 CHUNKSIZE"

definition PREV_PTR :: "addr \<Rightarrow> addr" where
  "PREV_PTR p = p - TYPE_SIZE"

definition NEXT_PTR :: "addr \<Rightarrow> addr" where
  "NEXT_PTR p = p + TYPE_SIZE"

definition PACK :: "heap_word \<Rightarrow> heap_word \<Rightarrow> heap_word" where
  "PACK sz status = sz OR status"

definition SIZE :: "heap_word \<Rightarrow> heap_word" where
  "SIZE v = v AND SIZE_MASK"

definition STATUS :: "heap_word \<Rightarrow> heap_word" where
  "STATUS v = v AND STATUS_MASK"

definition GET :: "memory \<Rightarrow> addr \<Rightarrow> heap_word" where
  "GET m p = m p"

definition GET_SIZE :: "memory \<Rightarrow> addr \<Rightarrow> heap_word" where
  "GET_SIZE m p = SIZE (GET m p)"

definition GET_STATUS :: "memory \<Rightarrow> addr \<Rightarrow> heap_word" where
  "GET_STATUS m p = STATUS (GET m p)"

definition PUT :: "memory \<Rightarrow> addr \<Rightarrow> heap_word \<Rightarrow> memory" where
  "PUT m p v = m(p := v)"

definition END :: "memory \<Rightarrow> addr \<Rightarrow> addr" where
  "END m p = PREV_PTR (p + GET_SIZE m p)"

definition START :: "memory \<Rightarrow> addr \<Rightarrow> addr" where
  "START m p = NEXT_PTR (p - GET_SIZE m p)"


subsection \<open>Rounding a size up to a unit through \<open>double\<close>\<close>

text \<open>
  \<open>mm_malloc\<close> rounds sizes up with \<open>ceil((double)x / U) * U\<close>, for \<open>U = BS\<close> and
  \<open>U = CHUNKSIZE\<close>, and stores the result in a \<open>size_t\<close>.  The conversion of the
  64-bit \<open>x\<close> to \<open>double\<close> rounds to 53 significant bits (to nearest, ties to even);
  the result is again an integer.  Dividing by a power of two, \<open>ceil\<close> and multiplying
  by the same power of two are exact on that value, so the \<open>double\<close> that is converted
  back is \<open>U * \<lceil>to_double x / U\<rceil>\<close>.  When it does not fit 64 bits the conversion to
  \<open>size_t\<close> is undefined in C, which the model reports as \<open>None\<close>.
\<close>

fun bitlen :: "nat \<Rightarrow> nat" where
  "bitlen n = (if n = 0 then 0 else Suc (bitlen (n div 2)))"

declare bitlen.simps [simp del]

definition to_double :: "nat \<Rightarrow> nat" where
  "to_double x =
     (if x < 2 ^ 53 then x
      else let e = bitlen x - 53; q = x div 2 ^ e; r = x mod 2 ^ e
           in (if 2 ^ e < 2 * r \<or> (2 * r = 2 ^ e \<and> odd q) then q + 1 else q) * 2 ^ e)"

definition ceil_to :: "nat \<Rightarrow> 64 word \<Rightarrow> 64 word option" where
  "ceil_to u x =
     (let c = (to_double (unat x) + u - 1) div u * u
      in if c < 2 ^ 64 then Some (of_nat c) else None)"

subsection \<open>The data segment\<close>

text \<open>
  Modelled from the spec: the Data Segment Provider (\<open>dataseg.h\<close>: \<open>ds_heap_stat\<close>,
  \<open>ds_getpagesize\<close>, \<open>ds_sbrk\<close>), whose implementation is not among the sources.  It owns a
  contiguous region from \<open>ds_start\<close> to its break \<open>ds_break\<close>, reports the bounds and the
  page size, and moves the break by a signed number of bytes.  It returns the new break,
  or the error sentinel \<open>(void*)-1\<close> when it cannot comply, leaving the break where it
  was.  The provider complies as long as the break stays between \<open>ds_start\<close> and
  \<open>ds_limit\<close>, the capacity of the region.
\<close>

record dataseg =
  ds_start :: addr
  ds_break :: addr
  ds_limit :: addr
  ds_pagesize :: int

definition ds_error :: addr where
  "ds_error = - 1"

definition ds_heap_stat :: "dataseg \<Rightarrow> addr \<times> addr" where
  "ds_heap_stat d = (ds_start d, ds_break d)"

definition ds_getpagesize :: "dataseg \<Rightarrow> int" where
  "ds_getpagesize d = ds_pagesize d"

definition ds_sbrk :: "64 word \<Rightarrow> dataseg \<Rightarrow> addr \<times> dataseg" where
  "ds_sbrk increment d =
     (let new_brk = uint (ds_break d) + sint increment
      in if new_brk < uint (ds_start d) \<or> uint (ds_limit d) < new_brk then (ds_error, d)
         else (word_of_int new_brk, d\<lparr>ds_break := word_of_int new_brk\<rparr>))"

subsection \<open>The state of the memory manager\<close>

text \<open>
  The global variables of the module, the memory and the data segment.  The function
  pointer \<open>get_free_block\<close> is \<open>None\<close> while it is \<open>NULL\<close> and names the policy whose
  locator it points to otherwise.  \<open>assert\<close> and \<open>PANIC\<close> end the process; the model
  returns them as errors.  Calling the \<open>NULL\<close> function pointer is an error of its own.
\<close>

datatype AllocationPolicy = ap_FirstFit | ap_NextFit | ap_BestFit

datatype fatal = AssertFail | Panic | NullCall | Undefined

record mm_state =
  mem :: memory
  dseg :: dataseg
  ds_heap_start :: addr
  ds_heap_brk :: addr
  heap_start :: addr
  heap_end :: addr
  next_block :: addr
  PAGESIZE :: int
  get_free_block :: "AllocationPolicy option"
  mm_initialized :: int
  mm_loglevel :: int

definition NULL :: addr where
  "NULL = 0"

definition sbrk :: "64 word \<Rightarrow> mm_state \<Rightarrow> addr \<times> mm_state" where
  "sbrk increment s = (let (r, d) = ds_sbrk increment (dseg s) in (r, s\<lparr>dseg := d\<rparr>))"

definition put :: "addr \<Rightarrow> heap_word \<Rightarrow> mm_state \<Rightarrow> mm_state" where
  "put p v s = s\<lparr>mem := PUT (mem s) p v\<rparr>"

subsection \<open>\<open>mm_init\<close>\<close>

definition mm_init :: "AllocationPolicy \<Rightarrow> mm_state \<Rightarrow> fatal + mm_state" where
  "mm_init ap s =
     (let s = s\<lparr>get_free_block := Some ap\<rparr>;
          (start, brk) = ds_heap_stat (dseg s);
          s = s\<lparr>ds_heap_start := start, ds_heap_brk := brk, PAGESIZE := ds_getpagesize (dseg s)\<rparr>
      in if ds_heap_start s = NULL then Inl Panic
         else if ds_heap_start s \<noteq> ds_heap_brk s then Inl Panic
         else if PAGESIZE s = 0 then Inl Panic
         else
           let (r, s) = sbrk INITCHUNK s;
               (brk, s) = sbrk 0 s;
               s = s\<lparr>ds_heap_brk := brk\<rparr>
           in if ds_heap_brk s = ds_error then Inl Panic
              else
                let hs = (ds_heap_start s + BS) div BS * BS;
                    s = s\<lparr>heap_start := hs, next_block := hs\<rparr>;
                    s = put (PREV_PTR (heap_start s)) (PACK 0 ALLOC) s;
                    he = (ds_heap_brk s - 1) div BS * BS;
                    s = s\<lparr>heap_end := he\<rparr>;
                    s = put (heap_end s) (PACK 0 ALLOC) s;
                    sz = heap_end s - heap_start s;
                    bdrtag = PACK sz FREE;
                    s = put (heap_start s) bdrtag s;
                    s = put (PREV_PTR (heap_end s)) bdrtag s
                in Inr (s\<lparr>mm_initialized := 1\<rparr>))"

subsection \<open>Block allocation policies\<close>

text \<open>
  The three locators walk the heap with loops that end only if the boundary tags let
  them: a block of size zero, or sizes that wrap around the address space, keep them
  running.  Each loop is a partial function whose value is \<open>None\<close> when it does not
  return.
\<close>

definition fits :: "mm_state \<Rightarrow> 64 word \<Rightarrow> addr \<Rightarrow> bool" where
  "fits s sz p \<longleftrightarrow> GET_STATUS (mem s) p = FREE \<and> sz \<le> GET_SIZE (mem s) p"

partial_function (option) ff_loop :: "mm_state \<Rightarrow> 64 word \<Rightarrow> addr \<Rightarrow> addr option" where
  "ff_loop s sz p =
     (if p < heap_end s then
        (if fits s sz p then Some p else ff_loop s sz (p + GET_SIZE (mem s) p))
      else Some p)"

declare ff_loop.simps [code]

definition ff_get_free_block :: "64 word \<Rightarrow> mm_state \<Rightarrow> (fatal + addr \<times> mm_state) option" where
  "ff_get_free_block sz s =
     (if mm_initialized s = 0 then Some (Inl AssertFail)
      else
        (case ff_loop s sz (heap_start s) of
           None \<Rightarrow> None
         | Some p \<Rightarrow>
             (if heap_end s \<le> p \<or> GET_STATUS (mem s) p = ALLOC then Some (Inr (NULL, s))
              else Some (Inr (p, s)))))"

partial_function (option) nf_loop :: "mm_state \<Rightarrow> 64 word \<Rightarrow> addr \<Rightarrow> addr option" where
  "nf_loop s sz p =
     (if fits s sz p then Some p
      else let p = (if 0 < GET_SIZE (mem s) p then p + GET_SIZE (mem s) p else heap_start s)
           in if p \<noteq> next_block s then nf_loop s sz p else Some p)"

declare nf_loop.simps [code]

definition nf_get_free_block :: "64 word \<Rightarrow> mm_state \<Rightarrow> (fatal + addr \<times> mm_state) option" where
  "nf_get_free_block sz s =
     (if mm_initialized s = 0 then Some (Inl AssertFail)
      else
        (case nf_loop s sz (next_block s) of
           None \<Rightarrow> None
         | Some p \<Rightarrow>
             (if p = next_block s \<and> (GET_STATUS (mem s) p = ALLOC \<or> GET_SIZE (mem s) p < sz)
              then Some (Inr (NULL, s))
              else Some (Inr (p, s\<lparr>next_block := p\<rparr>)))))"

partial_function (option) bf_loop :: "mm_state \<Rightarrow> 64 word \<Rightarrow> addr \<Rightarrow> addr \<Rightarrow> addr option" where
  "bf_loop s sz p best =
     (if p < heap_end s then
        bf_loop s sz (p + GET_SIZE (mem s) p)
          (if fits s sz p \<and> (best = NULL \<or> GET_SIZE (mem s) p < GET_SIZE (mem s) best)
           then p else best)
      else Some best)"

declare bf_loop.simps [code]

definition bf_get_free_block :: "64 word \<Rightarrow> mm_state \<Rightarrow> (fatal + addr \<times> mm_state) option" where
  "bf_get_free_block sz s =
     (if mm_initialized s = 0 then Some (Inl AssertFail)
      else
        (case bf_loop s sz (heap_start s) NULL of
           None \<Rightarrow> None
         | Some best \<Rightarrow> Some (Inr (best, s))))"

definition call_get_free_block :: "64 word \<Rightarrow> mm_state \<Rightarrow> (fatal + addr \<times> mm_state) option" where
  "call_get_free_block sz s =
     (case get_free_block s of
        None \<Rightarrow> Some (Inl NullCall)
      | Some ap_FirstFit \<Rightarrow> ff_get_free_block sz s
      | Some ap_NextFit \<Rightarrow> nf_get_free_block sz s
      | Some ap_BestFit \<Rightarrow> bf_get_free_block sz s)"

subsection \<open>\<open>mm_malloc\<close>\<close>

text \<open>
  \<open>expand_heap\<close> is the body of \<open>if (start_alloc == NULL)\<close>: it extends the data segment,
  merges the new space with a free last block and returns the header of the last block.
  The results of the two \<open>ds_sbrk\<close> calls are used as the source uses them: the first is
  dropped, the second becomes the new break.
\<close>

definition expand_heap :: "64 word \<Rightarrow> mm_state \<Rightarrow> fatal + addr \<times> mm_state" where
  "expand_heap req_size s =
     (let p = heap_end s;
          sz = (if GET_STATUS (mem s) (PREV_PTR p) = FREE then GET_SIZE (mem s) (PREV_PTR p) else 0)
      in (case ceil_to (unat CHUNKSIZE) (req_size - sz + 1) of
           None \<Rightarrow> Inl Undefined
         | Some c \<Rightarrow>
             let chunk_size = (if c < INITCHUNK then INITCHUNK else c);
                 (r, s) = sbrk chunk_size s;
                 (brk, s) = sbrk 0 s;
                 s = s\<lparr>ds_heap_brk := brk, heap_end := brk\<rparr>;
                 s = s\<lparr>heap_end := (heap_end s - 1) div BS * BS\<rparr>;
                 sz = sz + (heap_end s - p);
                 start_alloc = heap_end s - sz;
                 bdrtag = PACK sz FREE;
                 s = put start_alloc bdrtag s;
                 s = put (PREV_PTR (heap_end s)) bdrtag s;
                 s = put (heap_end s) (PACK 0 ALLOC) s
             in Inr (start_alloc, s\<lparr>next_block := start_alloc\<rparr>)))"

text \<open>
  \<open>place\<close> is the rest of \<open>mm_malloc\<close>: it marks the first \<open>req_size\<close> bytes of the block
  allocated and turns what is left of it into a free block.
\<close>

definition place :: "64 word \<Rightarrow> addr \<Rightarrow> mm_state \<Rightarrow> addr \<times> mm_state" where
  "place req_size start_alloc s =
     (let prev_size = GET_SIZE (mem s) start_alloc;
          end_alloc = PREV_PTR (start_alloc + req_size);
          bdrtag_alloc = PACK req_size ALLOC;
          s = put start_alloc bdrtag_alloc s;
          s = put end_alloc bdrtag_alloc s;
          cur_size = prev_size - req_size;
          s = (if cur_size \<noteq> 0 then
                 let start_free = start_alloc + req_size;
                     end_free = PREV_PTR (start_free + cur_size);
                     bdrtag_free = PACK cur_size FREE;
                     s = put start_free bdrtag_free s
                 in put end_free bdrtag_free s
               else s)
      in (start_alloc + TYPE_SIZE, s))"

definition mm_malloc :: "64 word \<Rightarrow> mm_state \<Rightarrow> (fatal + addr \<times> mm_state) option" where
  "mm_malloc sz s =
     (if mm_initialized s = 0 then Some (Inl AssertFail)
      else
        (case ceil_to (unat BS) (sz + 2 * TYPE_SIZE) of
           None \<Rightarrow> Some (Inl Undefined)
         | Some req_size \<Rightarrow>
             (case call_get_free_block req_size s of
                None \<Rightarrow> None
              | Some (Inl e) \<Rightarrow> Some (Inl e)
              | Some (Inr (start_alloc, s)) \<Rightarrow>
                  (if start_alloc = NULL then
                     (case expand_heap req_size s of
                        Inl e \<Rightarrow> Some (Inl e)
                      | Inr (start_alloc, s) \<Rightarrow> Some (Inr (place req_size start_alloc s)))
                   else Some (Inr (place req_size start_alloc s))))))"

subsection \<open>\<open>mm_calloc\<close>\<close>

text \<open>
  \<open>memset\<close> clears \<open>n\<close> bytes from \<open>p\<close>.  On the words of the model: a word that lies in
  the range is cleared; of a word the range ends in, the bytes at the lower addresses are
  cleared, which are its low-order bytes on the little-endian machines the module is
  built for.
\<close>

definition memset0 :: "memory \<Rightarrow> addr \<Rightarrow> 64 word \<Rightarrow> memory" where
  "memset0 m p n =
     (\<lambda>a. let off = a - p
          in if off AND 7 = 0 \<and> off < n then
               (if 8 \<le> n - off then 0 else m a AND NOT (mask (8 * unat (n - off))))
             else m a)"

definition mm_calloc :: "64 word \<Rightarrow> 64 word \<Rightarrow> mm_state \<Rightarrow> (fatal + addr \<times> mm_state) option" where
  "mm_calloc nmemb sz s =
     (if mm_initialized s = 0 then Some (Inl AssertFail)
      else
        (case mm_malloc (nmemb * sz) s of
           None \<Rightarrow> None
         | Some (Inl e) \<Rightarrow> Some (Inl e)
         | Some (Inr (payload, s)) \<Rightarrow>
             Some (Inr (payload,
               if payload \<noteq> NULL then s\<lparr>mem := memset0 (mem s) payload (nmemb * sz)\<rparr> else s))))"

subsection \<open>\<open>mm_free\<close>\<close>

text \<open>
  \<open>mm_free\<close> runs four steps on the local variable \<open>ptr\<close> (the header of the block) and
  the state: it marks the block free, merges it with a free preceding block, merges it
  with a free succeeding block and, inside that last step, shrinks the heap.  Each step
  is a function on the pair of \<open>ptr\<close> and the state.
\<close>

definition free_mark :: "addr \<Rightarrow> mm_state \<Rightarrow> mm_state" where
  "free_mark ptr s =
     (let bdrtag = PACK (GET_SIZE (mem s) ptr) FREE;
          s = put ptr bdrtag s
      in put (END (mem s) ptr) bdrtag s)"

definition coalesce_prev :: "addr \<Rightarrow> mm_state \<Rightarrow> addr \<times> mm_state" where
  "coalesce_prev ptr s =
     (if ptr \<noteq> heap_start s \<and> GET_STATUS (mem s) (PREV_PTR ptr) = FREE then
        let prev_ptr = START (mem s) (PREV_PTR ptr);
            sz = GET_SIZE (mem s) prev_ptr + GET_SIZE (mem s) ptr;
            bdrtag = PACK sz FREE;
            s = put prev_ptr bdrtag s;
            s = put (END (mem s) prev_ptr) bdrtag s
        in (prev_ptr, s\<lparr>next_block := prev_ptr\<rparr>)
      else (ptr, s))"

definition shrink_heap :: "mm_state \<Rightarrow> mm_state" where
  "shrink_heap s =
     (let p = PREV_PTR (heap_end s);
          sz = (if GET_STATUS (mem s) p = FREE then GET_SIZE (mem s) p else 0);
          s = s\<lparr>next_block := START (mem s) p\<rparr>;
          chunk_size = (if INITCHUNK < sz then (sz - INITCHUNK) div CHUNKSIZE * CHUNKSIZE else 0)
      in if chunk_size \<noteq> 0 then
           let last_block = START (mem s) (PREV_PTR (heap_end s));
               (r, s) = sbrk (- chunk_size) s;
               (brk, s) = sbrk 0 s;
               s = s\<lparr>ds_heap_brk := brk, heap_end := brk\<rparr>;
               s = s\<lparr>heap_end := (heap_end s - 1) div BS * BS\<rparr>;
               sz = heap_end s - last_block;
               bdrtag = PACK sz FREE;
               s = put last_block bdrtag s;
               s = put (PREV_PTR (heap_end s)) bdrtag s;
               s = put (heap_end s) (PACK 0 ALLOC) s
           in s\<lparr>next_block := last_block\<rparr>
         else s)"

definition coalesce_next :: "addr \<Rightarrow> mm_state \<Rightarrow> mm_state" where
  "coalesce_next ptr s =
     (if NEXT_PTR (END (mem s) ptr) \<noteq> heap_end s
         \<and> GET_STATUS (mem s) (NEXT_PTR (END (mem s) ptr)) = FREE then
        let next_ptr = NEXT_PTR (END (mem s) ptr);
            bdrtag = PACK (GET_SIZE (mem s) next_ptr + GET_SIZE (mem s) ptr) FREE;
            s = put ptr bdrtag s;
            s = put (END (mem s) ptr) bdrtag s;
            s = s\<lparr>next_block := next_ptr\<rparr>
        in if END (mem s) ptr = PREV_PTR (heap_end s) then shrink_heap s else s
      else s)"

definition mm_free :: "addr \<Rightarrow> mm_state \<Rightarrow> fatal + mm_state" where
  "mm_free ptr s =
     (if ptr = NULL then Inr s
      else if mm_initialized s = 0 then Inl AssertFail
      else
        let ptr = PREV_PTR ptr;
            s = free_mark ptr s;
            (ptr, s) = coalesce_prev ptr s
        in Inr (coalesce_next ptr s))"

subsection \<open>\<open>mm_realloc\<close>\<close>

text \<open>
  \<open>memcpy\<close> copies \<open>n\<close> bytes from \<open>src\<close> to \<open>dst\<close>; the memory manager calls it with a
  length that is a multiple of eight, so it copies whole words.  \<open>realloc_copy_len\<close> is
  the length \<open>mm_realloc\<close> passes: the size in the tag at the next-fit cursor less the
  two tags.  \<open>mm_realloc_copy\<close> is \<open>mm_realloc\<close> together with the length of the copy it
  made, if it made one.
\<close>

definition memcpy :: "memory \<Rightarrow> addr \<Rightarrow> addr \<Rightarrow> 64 word \<Rightarrow> memory" where
  "memcpy m dst src n =
     (\<lambda>a. let off = a - dst in if off AND 7 = 0 \<and> off < n then m (src + off) else m a)"

definition realloc_copy_len :: "mm_state \<Rightarrow> 64 word" where
  "realloc_copy_len s = GET_SIZE (mem s) (next_block s) - 2 * TYPE_SIZE"

definition mm_realloc_copy ::
  "addr \<Rightarrow> 64 word \<Rightarrow> mm_state \<Rightarrow> (fatal + addr \<times> mm_state \<times> 64 word option) option" where
  "mm_realloc_copy ptr sz s =
     (if mm_initialized s = 0 then Some (Inl AssertFail)
      else if ptr = NULL then
        (case mm_malloc sz s of
           None \<Rightarrow> None
         | Some (Inl e) \<Rightarrow> Some (Inl e)
         | Some (Inr (p, s)) \<Rightarrow> Some (Inr (p, s, None)))
      else
        (case mm_free ptr s of
           Inl e \<Rightarrow> Some (Inl e)
         | Inr s \<Rightarrow>
             (let prev_get_free_block = get_free_block s;
                  prev_next_block = next_block s;
                  s = s\<lparr>get_free_block := Some ap_NextFit, next_block := PREV_PTR ptr\<rparr>
              in (case mm_malloc sz s of
                    None \<Rightarrow> None
                  | Some (Inl e) \<Rightarrow> Some (Inl e)
                  | Some (Inr (new_ptr, s)) \<Rightarrow>
                      (let n = realloc_copy_len s;
                           copied = (if new_ptr \<noteq> ptr then Some n else None);
                           s = (if new_ptr \<noteq> ptr then s\<lparr>mem := memcpy (mem s) new_ptr ptr n\<rparr>
                                else s);
                           s = s\<lparr>get_free_block := prev_get_free_block,
                                  next_block := prev_next_block\<rparr>
                       in Some (Inr (new_ptr, s, copied)))))))"

definition mm_realloc :: "addr \<Rightarrow> 64 word \<Rightarrow> mm_state \<Rightarrow> (fatal + addr \<times> mm_state) option" where
  "mm_realloc ptr sz s =
     (case mm_realloc_copy ptr sz s of
        None \<Rightarrow> None
      | Some (Inl e) \<Rightarrow> Some (Inl e)
      | Some (Inr (p, s, copied)) \<Rightarrow> Some (Inr (p, s)))"

subsection \<open>\<open>mm_setloglevel\<close> and \<open>mm_check\<close>\<close>

definition mm_setloglevel :: "int \<Rightarrow> mm_state \<Rightarrow> fatal + mm_state" where
  "mm_setloglevel level s = Inr (s\<lparr>mm_loglevel := level\<rparr>)"

text \<open>
  \<open>mm_check\<close> prints the heap; of what it prints the model keeps the verdict, whether the
  line \<open>Block structure coherent\<close> appears.
\<close>

partial_function (option) check_loop :: "mm_state \<Rightarrow> addr \<Rightarrow> nat \<Rightarrow> (addr \<times> nat) option" where
  "check_loop s p errors =
     (if p < heap_end s then
        let hdr = GET (mem s) p;
            fp = p + SIZE hdr - TYPE_SIZE;
            ftr = GET (mem s) fp;
            errors = (if SIZE hdr \<noteq> SIZE ftr \<or> STATUS hdr \<noteq> STATUS ftr then errors + 1 else errors);
            p = p + SIZE hdr
        in if SIZE hdr = 0 then Some (p, errors) else check_loop s p errors
      else Some (p, errors))"

declare check_loop.simps [code]

definition mm_check :: "mm_state \<Rightarrow> (fatal + bool) option" where
  "mm_check s =
     (if mm_initialized s = 0 then Some (Inl AssertFail)
      else
        (case check_loop s (heap_start s) 0 of
           None \<Rightarrow> None
         | Some (p, errors) \<Rightarrow> Some (Inr (p = heap_end s \<and> errors = 0))))"

section \<open>Programs that call the memory manager\<close>

text \<open>
  A client is a sequence of calls of the public operations.  \<open>run\<close> performs the calls in
  order from a state, stops at the first fatal error and collects the pointers that
  \<open>mm_malloc\<close>, \<open>mm_calloc\<close> and \<open>mm_realloc\<close> return.  \<open>mm_boot\<close> is the state of the
  module when the process starts: every global variable has its initialiser.  \<open>ds_boot\<close>
  is a data segment that starts at \<open>0x10000000\<close>, is empty, and can grow up to a limit.
\<close>

datatype op =
    Init AllocationPolicy
  | Malloc "64 word"
  | Calloc "64 word" "64 word"
  | Realloc addr "64 word"
  | Free addr
  | SetLogLevel int
  | Check

fun returned :: "(fatal + addr \<times> mm_state) option \<Rightarrow> (fatal + addr list \<times> mm_state) option" where
  "returned None = None"
| "returned (Some (Inl e)) = Some (Inl e)"
| "returned (Some (Inr (p, s))) = Some (Inr ([p], s))"

fun returned_void :: "fatal + mm_state \<Rightarrow> (fatal + addr list \<times> mm_state) option" where
  "returned_void (Inl e) = Some (Inl e)"
| "returned_void (Inr s) = Some (Inr ([], s))"

fun perform :: "op \<Rightarrow> mm_state \<Rightarrow> (fatal + addr list \<times> mm_state) option" where
  "perform (Init ap) s = returned_void (mm_init ap s)"
| "perform (Malloc n) s = returned (mm_malloc n s)"
| "perform (Calloc n m) s = returned (mm_calloc n m s)"
| "perform (Realloc p n) s = returned (mm_realloc p n s)"
| "perform (Free p) s = returned_void (mm_free p s)"
| "perform (SetLogLevel l) s = returned_void (mm_setloglevel l s)"
| "perform Check s =
     (case mm_check s of
        None \<Rightarrow> None
      | Some (Inl e) \<Rightarrow> Some (Inl e)
      | Some (Inr b) \<Rightarrow> Some (Inr ([], s)))"

fun run :: "op list \<Rightarrow> mm_state \<Rightarrow> (fatal + addr list \<times> mm_state) option" where
  "run [] s = Some (Inr ([], s))"
| "run (c # cs) s =
     (case perform c s of
        None \<Rightarrow> None
      | Some (Inl e) \<Rightarrow> Some (Inl e)
      | Some (Inr (ps, s)) \<Rightarrow>
          (case run cs s of
             None \<Rightarrow> None
           | Some (Inl e) \<Rightarrow> Some (Inl e)
           | Some (Inr (qs, s)) \<Rightarrow> Some (Inr (ps @ qs, s))))"

definition ds_boot :: "addr \<Rightarrow> dataseg" where
  "ds_boot limit =
     \<lparr>ds_start = 0x10000000, ds_break = 0x10000000, ds_limit = limit, ds_pagesize = 4096\<rparr>"

definition mm_boot :: "dataseg \<Rightarrow> mm_state" where
  "mm_boot d =
     \<lparr>mem = (\<lambda>a. 0), dseg = d, ds_heap_start = NULL, ds_heap_brk = NULL,
      heap_start = NULL, heap_end = NULL, next_block = NULL, PAGESIZE = 0,
      get_free_block = None, mm_initialized = 0, mm_loglevel = 0\<rparr>"

text \<open>
  \<open>blocks s p bs\<close>: the walk \<open>while (p < heap_end) p += GET_SIZE(p)\<close>, which the first-fit
  and best-fit locators and \<open>mm_check\<close> share, visits exactly the headers \<open>bs\<close>, in this
  order, when it starts at \<open>p\<close>, and then ends.
\<close>

fun blocks :: "mm_state \<Rightarrow> addr \<Rightarrow> addr list \<Rightarrow> bool" where
  "blocks s p [] = (\<not> p < heap_end s)"
| "blocks s p (b # bs) = (b = p \<and> p < heap_end s \<and> blocks s (p + GET_SIZE (mem s) p) bs)"

lemmas mm_defs =
  mm_init_def mm_malloc_def mm_free_def mm_calloc_def mm_realloc_def mm_realloc_copy_def
  mm_setloglevel_def mm_check_def call_get_free_block_def ff_get_free_block_def
  nf_get_free_block_def bf_get_free_block_def expand_heap_def place_def free_mark_def
  coalesce_prev_def coalesce_next_def shrink_heap_def realloc_copy_len_def memcpy_def
  memset0_def fits_def sbrk_def put_def ds_sbrk_def ds_heap_stat_def ds_getpagesize_def
  ds_error_def

lemmas macro_defs =
  GET_def PUT_def GET_SIZE_def GET_STATUS_def SIZE_def STATUS_def PACK_def END_def START_def
  PREV_PTR_def NEXT_PTR_def TYPE_SIZE_def ALLOC_def FREE_def STATUS_MASK_def SIZE_MASK_def
  CHUNKSIZE_def BS_def INITCHUNK_def NULL_def

text \<open>
  Below \<open>2 ^ 53\<close> the conversion to \<open>double\<close> is exact, and rounding up to a unit is
  the rounding of integers.
\<close>

lemma ceil_to_small:
  assumes "unat x < 2 ^ 53" and "0 < u" and "u \<le> 4096"
  shows "ceil_to u x = Some (of_nat ((unat x + u - 1) div u * u))"
proof -
  have "(unat x + u - 1) div u * u \<le> unat x + u - 1"
    by simp
  also have "\<dots> < 2 ^ 64"
    using assms by simp
  finally show ?thesis
    using assms(1) by (simp add: ceil_to_def to_double_def)
qed

lemmas run_defs = mm_boot_def ds_boot_def mm_defs ceil_to_small macro_defs Let_def
  ff_loop.simps nf_loop.simps bf_loop.simps check_loop.simps

section \<open>Boundary tags\<close>

lemma and_7_unat: "unat ((w :: 64 word) AND 7) = unat w mod 8"
proof -
  have "(7 :: 64 word) = mask 3"
    by (simp add: mask_eq_exp_minus_1)
  then have "w AND 7 = take_bit 3 w"
    by (simp add: take_bit_eq_mask)
  then show ?thesis
    by (simp add: unsigned_take_bit_eq take_bit_eq_mod unat_mod)
qed

lemma and_7_eq_0: "8 dvd unat (w :: 64 word) \<Longrightarrow> w AND 7 = 0"
  using and_7_unat [of w] by (simp add: unat_eq_0 flip: mod_eq_0_iff_dvd)

lemma and_not_7: "(w :: 64 word) AND 7 = 0 \<Longrightarrow> w AND - 8 = w"
proof -
  assume a: "w AND 7 = 0"
  have "w = (w AND 7) OR (w AND NOT 7)"
    by (metis bit.conj_disj_distrib bit.conj_one_right bit.disj_cancel_right)
  with a have "w AND NOT 7 = w" by simp
  then show ?thesis by simp
qed

lemma SIZE_PACK:
  assumes "sz AND 7 = 0" and "st AND NOT 7 = 0"
  shows "SIZE (PACK sz st) = sz"
proof -
  have "(sz OR st) AND NOT 7 = (sz AND NOT 7) OR (st AND NOT 7)"
    by (simp add: bit.conj_disj_distrib2)
  with assms show ?thesis
    by (simp add: SIZE_def PACK_def SIZE_MASK_def STATUS_MASK_def and_not_7)
qed

lemma STATUS_PACK:
  assumes "sz AND 7 = 0" and "st AND 7 = st"
  shows "STATUS (PACK sz st) = st"
proof -
  have "(sz OR st) AND 7 = (sz AND 7) OR (st AND 7)"
    by (simp add: bit.conj_disj_distrib2)
  with assms show ?thesis
    by (simp add: STATUS_def PACK_def STATUS_MASK_def)
qed

text \<open>
  C10.  Boundary-tag packing is lossless for legal blocks: for every size that is a
  multiple of 8 and every status among \<open>FREE = 0\<close> and \<open>ALLOC = 1\<close>, extracting the size
  from \<open>PACK size status\<close> yields the size and extracting the status yields the status.
\<close>

theorem PACK_lossless:
  assumes "8 dvd unat sz" and "st = FREE \<or> st = ALLOC"
  shows "SIZE (PACK sz st) = sz \<and> STATUS (PACK sz st) = st"
proof -
  have z: "sz AND 7 = 0"
    using assms(1) by (rule and_7_eq_0)
  from assms(2) have "st AND NOT 7 = 0" and "st AND 7 = st"
    by (auto simp: FREE_def ALLOC_def)
  with z show ?thesis
    by (simp add: SIZE_PACK STATUS_PACK)
qed

theorem PACK_lossless_witness:
  "8 dvd unat (4096 :: 64 word) \<and> (ALLOC = FREE \<or> ALLOC = ALLOC)
   \<and> SIZE (PACK 4096 ALLOC) = 4096 \<and> STATUS (PACK 4096 ALLOC) = ALLOC"
  using PACK_lossless [of 4096 ALLOC] by simp

section \<open>Calls before \<open>mm_init\<close>, and \<open>mm_free (NULL)\<close>\<close>

text \<open>
  C9.  \<open>mm_free\<close> of \<open>NULL\<close> is a no-op: in every state it returns with the whole state
  (memory, data segment, bounds, policy, next-fit cursor) unchanged.
\<close>

theorem mm_free_NULL_noop: "mm_free NULL s = Inr s"
  by (simp add: mm_free_def)

text \<open>
  C7, as the code has it.  Before \<open>mm_init\<close>, \<open>mm_malloc\<close>, \<open>mm_calloc\<close>, \<open>mm_realloc\<close>,
  \<open>mm_check\<close> and \<open>mm_free\<close> of a pointer other than \<open>NULL\<close> fail their assertion;
  \<open>mm_free (NULL)\<close> and \<open>mm_setloglevel\<close> return normally, the latter having set the level.
\<close>

theorem calls_before_mm_init:
  assumes "mm_initialized s = 0"
  shows "mm_malloc sz s = Some (Inl AssertFail)
       \<and> mm_calloc n sz s = Some (Inl AssertFail)
       \<and> mm_realloc p sz s = Some (Inl AssertFail)
       \<and> mm_check s = Some (Inl AssertFail)
       \<and> (p \<noteq> NULL \<longrightarrow> mm_free p s = Inl AssertFail)
       \<and> mm_free NULL s = Inr s
       \<and> mm_setloglevel l s = Inr (s\<lparr>mm_loglevel := l\<rparr>)"
  using assms
  by (simp add: mm_malloc_def mm_calloc_def mm_realloc_def mm_realloc_copy_def mm_check_def
      mm_free_def mm_setloglevel_def)

theorem calls_before_mm_init_witness:
  "mm_initialized (mm_boot (ds_boot 0x10100000)) = 0
   \<and> mm_malloc 16 (mm_boot (ds_boot 0x10100000)) = Some (Inl AssertFail)
   \<and> mm_calloc 2 16 (mm_boot (ds_boot 0x10100000)) = Some (Inl AssertFail)
   \<and> mm_realloc 0x10000028 16 (mm_boot (ds_boot 0x10100000)) = Some (Inl AssertFail)
   \<and> mm_check (mm_boot (ds_boot 0x10100000)) = Some (Inl AssertFail)
   \<and> (0x10000028 :: addr) \<noteq> NULL
   \<and> mm_free 0x10000028 (mm_boot (ds_boot 0x10100000)) = Inl AssertFail"
proof -
  have i: "mm_initialized (mm_boot (ds_boot 0x10100000)) = 0"
    by (simp add: mm_boot_def)
  have n: "(0x10000028 :: addr) \<noteq> NULL"
    by (simp add: NULL_def)
  show ?thesis
    using calls_before_mm_init [OF i, of 16 2 "0x10000028" 16] i n
    by simp
qed

text \<open>
  The claim C7 as stated fails: in the state the process starts in, \<open>mm_setloglevel\<close> and
  \<open>mm_free (NULL)\<close> return normally.
\<close>

theorem mm_setloglevel_before_mm_init:
  "mm_initialized (mm_boot (ds_boot 0x10100000)) = 0
   \<and> mm_setloglevel 2 (mm_boot (ds_boot 0x10100000))
       = Inr ((mm_boot (ds_boot 0x10100000))\<lparr>mm_loglevel := 2\<rparr>)
   \<and> mm_free NULL (mm_boot (ds_boot 0x10100000)) = Inr (mm_boot (ds_boot 0x10100000))"
  by (simp add: mm_boot_def mm_setloglevel_def mm_free_def)

section \<open>Growing the heap when the data segment cannot grow\<close>

text \<open>
  C2 asks that \<open>mm_malloc\<close> ends the process with a diagnostic when it must grow the heap
  and the data segment refuses; \<open>mm_init\<close> does so for the first chunk.  \<open>mm_malloc\<close> drops
  the result of \<open>ds_sbrk\<close>.  The run below initialises the module on a data segment whose
  capacity is the first chunk, then asks for 100000 bytes.  No free block is large enough
  (the heap holds 65472 bytes), the data segment refuses the 65536 bytes more, and
  \<open>mm_malloc\<close> returns a pointer all the same: the break and \<open>heap_end\<close> are where they
  were, and the block it handed out is marked with 100032 bytes, past \<open>heap_end\<close>.
\<close>

theorem mm_malloc_ignores_refused_sbrk:
  "(case run [Init ap_FirstFit] (mm_boot (ds_boot 0x10010000)) of
      Some (Inr (ps, s)) \<Rightarrow>
        heap_start s = 0x10000020 \<and> heap_end s = 0x1000FFE0
        \<and> blocks s (heap_start s) [0x10000020]
        \<and> GET (mem s) 0x10000020 = PACK 65472 FREE
        \<and> ds_break (dseg s) = 0x10010000
        \<and> fst (ds_sbrk INITCHUNK (dseg s)) = ds_error
        \<and> ff_get_free_block 100032 s = Some (Inr (NULL, s))
        \<and> (case mm_malloc 100000 s of
              Some (Inr (p, s')) \<Rightarrow>
                p = 0x10000028 \<and> GET (mem s') 0x10000020 = PACK 100032 ALLOC
                \<and> heap_end s' = 0x1000FFE0 \<and> ds_break (dseg s') = 0x10010000
            | _ \<Rightarrow> False)
    | _ \<Rightarrow> False)"
  by (simp add: run_defs)

section \<open>Coalescing, the next-fit cursor and shrinking: runs of the code\<close>

text \<open>
  C4 asks that no two adjacent blocks are free after \<open>mm_free\<close> returns, for every sequence of
  calls.  When \<open>mm_free\<close> merges a block with its successor and the merged block is not the
  last one, it leaves the next-fit cursor at \<open>next_ptr\<close>, the header the successor had,
  which now lies inside the merged block (the branch for the preceding block sets the
  cursor to the merged block).  Under next fit the following \<open>mm_malloc\<close> allocates there,
  inside a block whose header says free, and the next \<open>mm_free\<close> leaves two free blocks
  side by side.  The run: three blocks of 32 bytes A, B, C are allocated, B and A are
  freed, 16 bytes are allocated (at B), and C is freed.
\<close>

theorem adjacent_free_blocks_after_mm_free:
  "(case run [Init ap_NextFit, Malloc 16, Malloc 16, Malloc 16,
              Free 0x10000048, Free 0x10000028, Malloc 16, Free 0x10000068]
          (mm_boot (ds_boot 0x10100000)) of
      Some (Inr (ps, s)) \<Rightarrow>
        ps = [0x10000028, 0x10000048, 0x10000068, 0x10000048]
        \<and> heap_start s = 0x10000020 \<and> heap_end s = 0x1000FFE0
        \<and> blocks s (heap_start s) [0x10000020, 0x10000060]
        \<and> GET (mem s) 0x10000020 = PACK 64 FREE
        \<and> GET (mem s) 0x10000060 = PACK 65408 FREE
        \<and> 0x10000020 + GET_SIZE (mem s) 0x10000020 = 0x10000060
    | _ \<Rightarrow> False)"
  by (simp add: run_defs)

text \<open>
  C5 asks that the heap shrinks whenever \<open>mm_free\<close> produces a free block that ends at the
  end sentinel.  The code shrinks only inside the branch that merges with the succeeding
  block.  The run: X takes the whole first chunk, Y (100000 bytes) makes the heap grow by
  102400 bytes, Z takes the 2400 bytes left; then Y and Z are freed in this order.  Freeing
  Z merges it with Y into a free block of 102400 bytes that ends at the end sentinel and
  exceeds \<open>INITCHUNK\<close> by more than \<open>CHUNKSIZE\<close>, and nothing is given back: the break is
  where it was before the two calls.
\<close>

theorem no_shrink_without_successor:
  "(case run [Init ap_FirstFit, Malloc 65456, Malloc 99984, Malloc 2384]
          (mm_boot (ds_boot 0x10100000)) of
      Some (Inr (ps, s)) \<Rightarrow>
        ps = [0x10000028, 0x1000FFE8, 0x10028688]
        \<and> heap_end s = 0x10028FE0 \<and> ds_break (dseg s) = 0x10029000
        \<and> (case run [Free 0x1000FFE8, Free 0x10028688] s of
              Some (Inr (qs, s')) \<Rightarrow>
                blocks s' (heap_start s') [0x10000020, 0x1000FFE0]
                \<and> GET (mem s') 0x1000FFE0 = PACK 102400 FREE
                \<and> 0x1000FFE0 + GET_SIZE (mem s') 0x1000FFE0 = heap_end s'
                \<and> INITCHUNK + CHUNKSIZE \<le> GET_SIZE (mem s') 0x1000FFE0
                \<and> heap_end s' = 0x10028FE0 \<and> ds_break (dseg s') = 0x10029000
            | _ \<Rightarrow> False)
    | _ \<Rightarrow> False)"
  by (simp add: run_defs)

text \<open>
  Where \<open>mm_free\<close> merges nothing it does not touch the cursor.  The run allocates
  three blocks A, B, C under first fit and frees B.  The block of B is free and 32 bytes
  long, and the cursor is still at \<open>heap_start\<close>, the header of A.
\<close>

lemma cursor_kept_without_merge:
  "(case run [Init ap_FirstFit, Malloc 16, Malloc 16, Malloc 16, Free 0x10000048]
          (mm_boot (ds_boot 0x10100000)) of
      Some (Inr (ps, s)) \<Rightarrow>
        ps = [0x10000028, 0x10000048, 0x10000068]
        \<and> blocks s (heap_start s) [0x10000020, 0x10000040, 0x10000060, 0x10000080]
        \<and> GET (mem s) 0x10000040 = PACK 32 FREE
        \<and> PREV_PTR 0x10000048 = 0x10000040
        \<and> next_block s = 0x10000020
        \<and> next_block s \<noteq> 0x10000040
    | _ \<Rightarrow> False)"
  by (simp add: run_defs)

text \<open>
  The claim C3 fails on the code where \<open>mm_free\<close> merges the block with a free
  succeeding block that is not the last one: that branch ends with
  \<open>next_block = next_ptr\<close>, the header of the block it has just absorbed (the branch for
  the preceding block sets the cursor to the merged block).  The run allocates three
  blocks A, B, C under first fit and frees B, then A.  The heap then consists of the
  merged free block of 64 bytes at \<open>0x10000020\<close>, the block of C and the free rest; the
  cursor is \<open>0x10000040\<close>, the former header of B, which lies inside the merged block
  and is the header of no block.
\<close>

theorem cursor_inside_merged_block:
  "(case run [Init ap_FirstFit, Malloc 16, Malloc 16, Malloc 16, Free 0x10000048,
              Free 0x10000028]
          (mm_boot (ds_boot 0x10100000)) of
      Some (Inr (ps, s)) \<Rightarrow>
        ps = [0x10000028, 0x10000048, 0x10000068]
        \<and> blocks s (heap_start s) [0x10000020, 0x10000060, 0x10000080]
        \<and> GET (mem s) 0x10000020 = PACK 64 FREE
        \<and> PREV_PTR 0x10000028 = 0x10000020
        \<and> next_block s = 0x10000040
        \<and> next_block s \<noteq> 0x10000020
        \<and> next_block s \<noteq> 0x10000060
        \<and> next_block s \<noteq> 0x10000080
        \<and> 0x10000020 < next_block s
        \<and> next_block s < 0x10000020 + GET_SIZE (mem s) 0x10000020
    | _ \<Rightarrow> False)"
  by (simp add: run_defs)

text \<open>
  The claim C1 fails on the code: \<open>mm_realloc\<close> has no record of the old payload size
  and no minimum; it copies as many bytes as the payload of the new block holds, starting
  at the old payload.  The run allocates three blocks A, B, C of 32 bytes, the client
  writes the two words of the payloads of B and of C, and B is reallocated to 100 bytes.
  The old payload is 16 bytes and the new block of 128 bytes is at \<open>0x10000080\<close>.  The
  call copies 112 bytes, not \<open>min 16 100\<close>: after it the new payload holds the two words
  of B, then the footer of the old block, the header, the payload and the footer of C,
  which is still allocated, and the header of the new block itself.  The source range
  \<open>[0x10000048, 0x100000B8)\<close> runs into the destination, which starts at \<open>0x10000088\<close>;
  the words the theorem names are those whose source lies before the destination, so
  they do not depend on the order in which \<open>memcpy\<close> copies.
\<close>

theorem mm_realloc_copies_past_old_payload:
  "(case run [Init ap_FirstFit, Malloc 16, Malloc 16, Malloc 16]
          (mm_boot (ds_boot 0x10100000)) of
      Some (Inr (ps, s0)) \<Rightarrow>
        ps = [0x10000028, 0x10000048, 0x10000068]
        \<and> (let s = s0\<lparr>mem := (mem s0)
                    (0x10000048 := 0x1111, 0x10000050 := 0x2222,
                     0x10000068 := 0x3333, 0x10000070 := 0x4444)\<rparr>
           in GET (mem s) (PREV_PTR 0x10000048) = PACK 32 ALLOC
              \<and> GET_SIZE (mem s) (PREV_PTR 0x10000048) - 2 * TYPE_SIZE = 16
              \<and> GET (mem s) (PREV_PTR 0x10000068) = PACK 32 ALLOC
              \<and> (case mm_realloc_copy 0x10000048 100 s of
                    Some (Inr (new_ptr, s', copied)) \<Rightarrow>
                      mm_realloc 0x10000048 100 s = Some (Inr (new_ptr, s'))
                      \<and> new_ptr = 0x10000088 \<and> new_ptr \<noteq> 0x10000048
                      \<and> GET (mem s') (PREV_PTR new_ptr) = PACK 128 ALLOC
                      \<and> copied = Some 112
                      \<and> copied \<noteq> Some (min 16 100)
                      \<and> mem s' new_ptr = 0x1111
                      \<and> mem s' (new_ptr + 8) = 0x2222
                      \<and> mem s' (new_ptr + 16) = PACK 32 FREE
                      \<and> mem s' (new_ptr + 24) = PACK 32 ALLOC
                      \<and> mem s' (new_ptr + 32) = 0x3333
                      \<and> mem s' (new_ptr + 40) = 0x4444
                      \<and> mem s' (new_ptr + 48) = PACK 32 ALLOC
                      \<and> mem s' (new_ptr + 56) = PACK 128 ALLOC
                      \<and> mem s' 0x10000068 = 0x3333
                      \<and> GET (mem s') (PREV_PTR 0x10000068) = PACK 32 ALLOC
                      \<and> new_ptr < 0x10000048 + 112
                  | _ \<Rightarrow> False))
    | _ \<Rightarrow> False)"
  by (simp add: run_defs)

section \<open>The best-fit locator\<close>

text \<open>
  \<open>bf_scan\<close> is the loop of \<open>bf_get_free_block\<close> run over the list of headers the walk
  visits; \<open>first_min s cs r\<close> says that \<open>r\<close> is the first block of least size in \<open>cs\<close>.
\<close>

fun bf_scan :: "mm_state \<Rightarrow> 64 word \<Rightarrow> addr list \<Rightarrow> addr \<Rightarrow> addr" where
  "bf_scan s sz [] best = best"
| "bf_scan s sz (b # bs) best =
     bf_scan s sz bs
       (if fits s sz b \<and> (best = NULL \<or> GET_SIZE (mem s) b < GET_SIZE (mem s) best)
        then b else best)"

lemma bf_loop_blocks:
  "blocks s p bs \<Longrightarrow> bf_loop s sz p best = Some (bf_scan s sz bs best)"
proof (induction bs arbitrary: p best)
  case Nil
  then show ?case by (subst bf_loop.simps) simp
next
  case (Cons b bs)
  then show ?case by (subst bf_loop.simps) simp
qed

definition first_min :: "mm_state \<Rightarrow> addr list \<Rightarrow> addr \<Rightarrow> bool" where
  "first_min s cs r \<longleftrightarrow>
     (\<exists>ys zs. cs = ys @ r # zs
        \<and> (\<forall>y\<in>set ys. GET_SIZE (mem s) r < GET_SIZE (mem s) y)
        \<and> (\<forall>z\<in>set zs. GET_SIZE (mem s) r \<le> GET_SIZE (mem s) z))"

lemma first_min_single: "first_min s [r] r"
  unfolding first_min_def by (rule exI [of _ "[]"], rule exI [of _ "[]"]) simp

lemma first_min_Cons_keep:
  assumes "first_min s (c # cs) r" and "GET_SIZE (mem s) c \<le> GET_SIZE (mem s) b"
  shows "first_min s (c # b # cs) r"
proof -
  from assms(1) obtain ys zs where
    e: "c # cs = ys @ r # zs"
    and l: "\<forall>y\<in>set ys. GET_SIZE (mem s) r < GET_SIZE (mem s) y"
    and g: "\<forall>z\<in>set zs. GET_SIZE (mem s) r \<le> GET_SIZE (mem s) z"
    unfolding first_min_def by blast
  show ?thesis
  proof (cases ys)
    case Nil
    with e have "r = c" and "zs = cs" by simp_all
    with g assms(2) have "c # b # cs = [] @ r # (b # cs)
      \<and> (\<forall>z\<in>set (b # cs). GET_SIZE (mem s) r \<le> GET_SIZE (mem s) z)"
      by simp
    then show ?thesis unfolding first_min_def by fastforce
  next
    case (Cons y ys')
    with e have yc: "y = c" and cs: "cs = ys' @ r # zs" by simp_all
    from l Cons yc have "GET_SIZE (mem s) r < GET_SIZE (mem s) c" by simp
    with assms(2) have "GET_SIZE (mem s) r < GET_SIZE (mem s) b" by simp
    with l Cons yc cs have "c # b # cs = (c # b # ys') @ r # zs
      \<and> (\<forall>y\<in>set (c # b # ys'). GET_SIZE (mem s) r < GET_SIZE (mem s) y)"
      by simp
    with g show ?thesis unfolding first_min_def by blast
  qed
qed

lemma first_min_Cons_replace:
  assumes "first_min s (b # cs) r" and "GET_SIZE (mem s) b < GET_SIZE (mem s) c"
  shows "first_min s (c # b # cs) r"
proof -
  from assms(1) obtain ys zs where
    e: "b # cs = ys @ r # zs"
    and l: "\<forall>y\<in>set ys. GET_SIZE (mem s) r < GET_SIZE (mem s) y"
    and g: "\<forall>z\<in>set zs. GET_SIZE (mem s) r \<le> GET_SIZE (mem s) z"
    unfolding first_min_def by blast
  have "GET_SIZE (mem s) r \<le> GET_SIZE (mem s) b"
  proof (cases ys)
    case Nil
    with e show ?thesis by simp
  next
    case (Cons y ys')
    with e l show ?thesis by (auto intro: less_imp_le)
  qed
  with assms(2) have "GET_SIZE (mem s) r < GET_SIZE (mem s) c" by simp
  with l e have "c # b # cs = (c # ys) @ r # zs
    \<and> (\<forall>y\<in>set (c # ys). GET_SIZE (mem s) r < GET_SIZE (mem s) y)"
    by simp
  with g show ?thesis unfolding first_min_def by blast
qed

lemma bf_scan_best:
  assumes "NULL \<notin> set bs" and "best \<noteq> NULL"
  shows "first_min s (best # filter (fits s sz) bs) (bf_scan s sz bs best)"
  using assms
proof (induction bs arbitrary: best)
  case Nil
  then show ?case by (simp add: first_min_single)
next
  case (Cons b bs)
  then have b: "b \<noteq> NULL" and n: "NULL \<notin> set bs" by auto
  show ?case
  proof (cases "fits s sz b")
    case False
    with Cons.IH [OF n Cons.prems(2)] show ?thesis by simp
  next
    case True
    show ?thesis
    proof (cases "GET_SIZE (mem s) b < GET_SIZE (mem s) best")
      case True
      with \<open>fits s sz b\<close> Cons.IH [OF n b] show ?thesis
        by (simp add: first_min_Cons_replace)
    next
      case False
      then have "GET_SIZE (mem s) best \<le> GET_SIZE (mem s) b" by simp
      with False \<open>fits s sz b\<close> Cons.IH [OF n Cons.prems(2)] Cons.prems(2) show ?thesis
        by (simp add: first_min_Cons_keep)
    qed
  qed
qed

lemma bf_scan_NULL:
  assumes "NULL \<notin> set bs"
  shows "if filter (fits s sz) bs = [] then bf_scan s sz bs NULL = NULL
         else first_min s (filter (fits s sz) bs) (bf_scan s sz bs NULL)"
  using assms
proof (induction bs)
  case Nil
  then show ?case by simp
next
  case (Cons b bs)
  then have b: "b \<noteq> NULL" and n: "NULL \<notin> set bs" by auto
  show ?case
  proof (cases "fits s sz b")
    case False
    with Cons.IH [OF n] show ?thesis by simp
  next
    case True
    with bf_scan_best [OF n b, of s sz] show ?thesis by simp
  qed
qed

text \<open>
  C6.  In every state that is initialised and in which the walk from \<open>heap_start\<close> visits
  the headers \<open>bs\<close> and ends (none of them at address \<open>NULL\<close>), the best-fit locator
  returns, and leaves the state as it is.  If no visited block is free with a size of at
  least the requested one, it returns \<open>NULL\<close>.  Otherwise it returns one of these
  candidates, \<open>r\<close>: every candidate the walk met before \<open>r\<close> is strictly larger than
  \<open>r\<close>, and every candidate it met after \<open>r\<close> is at least as large.  So \<open>r\<close> is the
  smallest free block that is large enough and, among those of that size, the first one.
\<close>

theorem bf_get_free_block_best:
  assumes "mm_initialized s \<noteq> 0" and "blocks s (heap_start s) bs" and "NULL \<notin> set bs"
  shows "\<exists>r. bf_get_free_block sz s = Some (Inr (r, s))
     \<and> (if filter (fits s sz) bs = [] then r = NULL
        else \<exists>ys zs. filter (fits s sz) bs = ys @ r # zs
          \<and> (\<forall>y\<in>set ys. GET_SIZE (mem s) r < GET_SIZE (mem s) y)
          \<and> (\<forall>z\<in>set zs. GET_SIZE (mem s) r \<le> GET_SIZE (mem s) z))"
proof -
  have "bf_get_free_block sz s = Some (Inr (bf_scan s sz bs NULL, s))"
    using assms(1) bf_loop_blocks [OF assms(2)] by (simp add: bf_get_free_block_def)
  with bf_scan_NULL [OF assms(3), of s sz] show ?thesis
    by (auto simp: first_min_def split: if_splits)
qed

text \<open>
  An example with a tie.  Six blocks are allocated under best fit and three of them are
  freed, which leaves free blocks of 64, 32, 32 and 65248 bytes; \<open>tie_heap\<close> is the state
  after these calls.  For a request of 32 bytes the locator returns the first of the two
  blocks of 32 bytes.
\<close>

definition tie_ops :: "op list" where
  "tie_ops =
     [Init ap_BestFit, Malloc 48, Malloc 16, Malloc 16, Malloc 16, Malloc 16, Malloc 16,
      Free 0x10000028, Free 0x10000088, Free 0x100000C8]"

definition tie_heap :: mm_state where
  "tie_heap =
     \<lparr>mem = (\<lambda>a. 0)
        (0x10000018 := 1, 0x1000FFE0 := 1, 0x10000060 := 33, 0x10000078 := 33,
         0x100000A0 := 33, 0x100000B8 := 33, 0x100000E0 := 33, 0x100000F8 := 33,
         0x10000100 := 65248, 0x1000FFD8 := 65248, 0x10000020 := 64, 0x10000058 := 64,
         0x10000080 := 32, 0x10000098 := 32, 0x100000C0 := 32, 0x100000D8 := 32),
      dseg = \<lparr>ds_start = 0x10000000, ds_break = 0x10010000, ds_limit = 0x10100000,
               ds_pagesize = 4096\<rparr>,
      ds_heap_start = 0x10000000, ds_heap_brk = 0x10010000,
      heap_start = 0x10000020, heap_end = 0x1000FFE0, next_block = 0x10000020,
      PAGESIZE = 4096, get_free_block = Some ap_BestFit, mm_initialized = 1,
      mm_loglevel = 0\<rparr>"

lemma run_tie_ops:
  "run tie_ops (mm_boot (ds_boot 0x10100000))
   = Some (Inr ([0x10000028, 0x10000068, 0x10000088, 0x100000A8, 0x100000C8, 0x100000E8],
               tie_heap))"
  by (simp add: tie_ops_def tie_heap_def run_defs)

theorem bf_get_free_block_best_witness:
  "mm_initialized tie_heap \<noteq> 0
   \<and> blocks tie_heap (heap_start tie_heap)
        [0x10000020, 0x10000060, 0x10000080, 0x100000A0, 0x100000C0, 0x100000E0, 0x10000100]
   \<and> NULL \<notin> set [0x10000020, 0x10000060, 0x10000080, 0x100000A0, 0x100000C0, 0x100000E0,
                   0x10000100]
   \<and> filter (fits tie_heap 32)
        [0x10000020, 0x10000060, 0x10000080, 0x100000A0, 0x100000C0, 0x100000E0, 0x10000100]
       = [0x10000020, 0x10000080, 0x100000C0, 0x10000100]
   \<and> map (GET_SIZE (mem tie_heap)) [0x10000020, 0x10000080, 0x100000C0, 0x10000100]
       = [64, 32, 32, 65248]
   \<and> bf_get_free_block 32 tie_heap = Some (Inr (0x10000080, tie_heap))"
proof -
  let ?bs = "[0x10000020, 0x10000060, 0x10000080, 0x100000A0, 0x100000C0, 0x100000E0,
              0x10000100 :: addr]"
  have i: "mm_initialized tie_heap \<noteq> 0"
    by (simp add: tie_heap_def)
  have b: "blocks tie_heap (heap_start tie_heap) ?bs"
    by (simp add: tie_heap_def macro_defs)
  have n: "NULL \<notin> set ?bs"
    by (simp add: NULL_def)
  have f: "filter (fits tie_heap 32) ?bs = [0x10000020, 0x10000080, 0x100000C0, 0x10000100]"
    by (simp add: tie_heap_def fits_def macro_defs)
  have g: "map (GET_SIZE (mem tie_heap)) [0x10000020, 0x10000080, 0x100000C0, 0x10000100]
       = [64, 32, 32, 65248]"
    by (simp add: tie_heap_def macro_defs)
  from bf_get_free_block_best [OF i b n, of 32] f obtain r ys zs where
    r: "bf_get_free_block 32 tie_heap = Some (Inr (r, tie_heap))"
    and e: "[0x10000020, 0x10000080, 0x100000C0, 0x10000100] = ys @ r # zs"
    and l: "\<forall>y\<in>set ys. GET_SIZE (mem tie_heap) r < GET_SIZE (mem tie_heap) y"
    and u: "\<forall>z\<in>set zs. GET_SIZE (mem tie_heap) r \<le> GET_SIZE (mem tie_heap) z"
    by auto
  have "r = 0x10000080"
    using e l u g by (auto simp: Cons_eq_append_conv)
  with r have "bf_get_free_block 32 tie_heap = Some (Inr (0x10000080, tie_heap))"
    by simp
  with i b n f g show ?thesis
    by blast
qed

section \<open>Well-formed heaps\<close>

text \<open>
  \<open>block_ok m p\<close>: the word at \<open>p\<close> is the header of a legal block, whose size is a
  multiple of 32 and at least 32, whose footer equals the header and whose status is
  \<open>FREE\<close> or \<open>ALLOC\<close>.  \<open>tiles m p bs e\<close>: the blocks with the headers \<open>bs\<close> are legal
  and lie one after the other from \<open>p\<close> to \<open>e\<close> without a gap, an overlap or a
  wrap-around of the address space.
\<close>

definition block_ok :: "memory \<Rightarrow> addr \<Rightarrow> bool" where
  "block_ok m p \<longleftrightarrow>
     32 \<le> unat (GET_SIZE m p) \<and> 32 dvd unat (GET_SIZE m p)
     \<and> GET m (END m p) = GET m p
     \<and> (GET_STATUS m p = FREE \<or> GET_STATUS m p = ALLOC)"

fun tiles :: "memory \<Rightarrow> addr \<Rightarrow> addr list \<Rightarrow> addr \<Rightarrow> bool" where
  "tiles m p [] e = (p = e)"
| "tiles m p (b # bs) e =
     (b = p \<and> block_ok m p \<and> unat p + unat (GET_SIZE m p) \<le> unat e
      \<and> tiles m (p + GET_SIZE m p) bs e)"

lemma unat_add_bounded:
  fixes p q e :: "64 word"
  assumes "unat p + unat q \<le> unat e"
  shows "unat (p + q) = unat p + unat q"
proof -
  have "unat e < 2 ^ 64"
    using unsigned_less [of e] by simp
  with assms have "unat p + unat q < 2 ^ LENGTH(64)"
    by simp
  then show ?thesis
    using unat_add_lem [of p q] by simp
qed

lemma tiles_le: "tiles m p bs e \<Longrightarrow> unat p \<le> unat e"
proof (induction bs arbitrary: p)
  case Nil
  then show ?case by simp
next
  case (Cons b bs)
  then have "unat (p + GET_SIZE m p) \<le> unat e" by simp
  moreover from Cons.prems have "unat (p + GET_SIZE m p) = unat p + unat (GET_SIZE m p)"
    by (auto intro: unat_add_bounded)
  ultimately show ?case by simp
qed

lemma tiles_append:
  "tiles m p (xs @ ys) e \<longleftrightarrow> (\<exists>q. tiles m p xs q \<and> tiles m q ys e)"
proof (induction xs arbitrary: p)
  case Nil
  then show ?case by simp
next
  case (Cons x xs)
  show ?case
  proof
    assume a: "tiles m p ((x # xs) @ ys) e"
    then obtain q where q: "tiles m (p + GET_SIZE m p) xs q" "tiles m q ys e"
      using Cons.IH by auto
    have "unat (p + GET_SIZE m p) \<le> unat q"
      using q(1) by (rule tiles_le)
    moreover have "unat (p + GET_SIZE m p) = unat p + unat (GET_SIZE m p)"
      using a by (auto intro: unat_add_bounded)
    ultimately have "unat p + unat (GET_SIZE m p) \<le> unat q" by simp
    with a q show "\<exists>q. tiles m p (x # xs) q \<and> tiles m q ys e" by auto
  next
    assume "\<exists>q. tiles m p (x # xs) q \<and> tiles m q ys e"
    then obtain q where q: "tiles m p (x # xs) q" "tiles m q ys e" by blast
    from q(2) have "unat q \<le> unat e" by (rule tiles_le)
    with q Cons.IH show "tiles m p ((x # xs) @ ys) e" by auto
  qed
qed

lemma END_in_block:
  assumes "block_ok m p" and "unat p + unat (GET_SIZE m p) \<le> unat (e :: addr)"
  shows "unat (END m p) = unat p + unat (GET_SIZE m p) - 8"
proof -
  have a: "unat (p + GET_SIZE m p) = unat p + unat (GET_SIZE m p)"
    using assms(2) by (rule unat_add_bounded)
  have "8 \<le> unat (p + GET_SIZE m p)"
    using assms(1) a by (simp add: block_ok_def)
  then have "unat (p + GET_SIZE m p - 8) = unat (p + GET_SIZE m p) - 8"
    by (simp add: unat_sub word_le_nat_alt)
  with a show ?thesis
    by (simp add: END_def PREV_PTR_def TYPE_SIZE_def)
qed

text \<open>\<open>agree m m' p e\<close>: the two memories hold the same words from \<open>p\<close> up to \<open>e\<close>.\<close>

definition agree :: "memory \<Rightarrow> memory \<Rightarrow> addr \<Rightarrow> addr \<Rightarrow> bool" where
  "agree m m' p e \<longleftrightarrow> (\<forall>a. unat p \<le> unat a \<and> unat a < unat e \<longrightarrow> m' a = m a)"

lemma block_ok_agree:
  assumes "block_ok m p" and "unat p + unat (GET_SIZE m p) \<le> unat e" and "agree m m' p e"
  shows "block_ok m' p \<and> GET m' p = GET m p"
proof -
  have s: "32 \<le> unat (GET_SIZE m p)" using assms(1) by (simp add: block_ok_def)
  have h: "m' p = m p"
    using assms(2,3) s by (simp add: agree_def)
  then have sz: "GET_SIZE m' p = GET_SIZE m p" and st: "GET_STATUS m' p = GET_STATUS m p"
    by (simp_all add: GET_SIZE_def GET_STATUS_def GET_def)
  then have e: "END m' p = END m p" by (simp add: END_def)
  have "unat (END m p) = unat p + unat (GET_SIZE m p) - 8"
    using assms(1,2) by (rule END_in_block)
  with s assms(2) have "unat p \<le> unat (END m p) \<and> unat (END m p) < unat e" by arith
  with assms(3) have "m' (END m p) = m (END m p)" by (simp add: agree_def)
  with assms(1) h sz st e show ?thesis
    by (simp add: block_ok_def GET_def)
qed

lemma agree_mono:
  "agree m m' p e \<Longrightarrow> unat p \<le> unat p' \<Longrightarrow> unat e' \<le> unat e \<Longrightarrow> agree m m' p' e'"
  by (simp add: agree_def)

lemma tiles_agree:
  "tiles m p bs e \<Longrightarrow> agree m m' p e \<Longrightarrow> tiles m' p bs e"
proof (induction bs arbitrary: p)
  case Nil
  then show ?case by simp
next
  case (Cons b bs)
  then have b: "block_ok m p" "unat p + unat (GET_SIZE m p) \<le> unat e" by simp_all
  from block_ok_agree [OF b Cons.prems(2)] have b': "block_ok m' p" "GET m' p = GET m p"
    by simp_all
  then have sz: "GET_SIZE m' p = GET_SIZE m p" by (simp add: GET_SIZE_def)
  have "unat (p + GET_SIZE m p) = unat p + unat (GET_SIZE m p)"
    using b(2) by (rule unat_add_bounded)
  then have "agree m m' (p + GET_SIZE m p) e"
    using Cons.prems(2) by (auto intro: agree_mono)
  with Cons b' sz show ?case by simp
qed


lemma tiles_mem:
  "tiles m p bs e \<Longrightarrow> b \<in> set bs \<Longrightarrow>
     block_ok m b \<and> unat p \<le> unat b \<and> unat b + unat (GET_SIZE m b) \<le> unat e"
proof (induction bs arbitrary: p)
  case Nil
  then show ?case by simp
next
  case (Cons x bs)
  have a: "unat (p + GET_SIZE m p) = unat p + unat (GET_SIZE m p)"
    using Cons.prems(1) by (auto intro: unat_add_bounded)
  show ?case
  proof (cases "b = x")
    case True
    with Cons.prems(1) show ?thesis by simp
  next
    case False
    with Cons.prems have "b \<in> set bs" and "tiles m (p + GET_SIZE m p) bs e" by simp_all
    with Cons.IH have "block_ok m b \<and> unat (p + GET_SIZE m p) \<le> unat b
        \<and> unat b + unat (GET_SIZE m b) \<le> unat e"
      by blast
    with a show ?thesis by simp
  qed
qed

lemma tiles_split:
  assumes "tiles m p bs e" and "b \<in> set bs"
  shows "\<exists>xs ys. bs = xs @ b # ys \<and> tiles m p xs b \<and> tiles m b (b # ys) e"
proof -
  from assms(2) obtain xs ys where e: "bs = xs @ b # ys"
    by (auto dest: split_list)
  with assms(1) obtain q where q: "tiles m p xs q" "tiles m q (b # ys) e"
    by (auto simp: tiles_append)
  then have "q = b" by simp
  with e q show ?thesis by blast
qed

lemma tiles_aligned:
  "tiles m p bs e \<Longrightarrow> 32 dvd unat p \<Longrightarrow> 32 dvd unat e \<and> (\<forall>b\<in>set bs. 32 dvd unat b)"
proof (induction bs arbitrary: p)
  case Nil
  then show ?case by simp
next
  case (Cons x bs)
  have a: "unat (p + GET_SIZE m p) = unat p + unat (GET_SIZE m p)"
    using Cons.prems(1) by (auto intro: unat_add_bounded)
  from Cons.prems have "32 dvd unat (GET_SIZE m p)" by (simp add: block_ok_def)
  with Cons.prems(2) a have "32 dvd unat (p + GET_SIZE m p)" by simp
  with Cons.IH [of "p + GET_SIZE m p"] Cons.prems show ?case by simp
qed

lemma tiles_less:
  assumes "tiles m p (b # bs) e"
  shows "p < e"
proof -
  from assms have "32 \<le> unat (GET_SIZE m p)" and "unat p + unat (GET_SIZE m p) \<le> unat e"
    by (simp_all add: block_ok_def)
  then show ?thesis by (simp add: word_less_nat_alt)
qed

lemma blocks_of_tiles:
  "tiles (mem s) p bs (heap_end s) \<Longrightarrow> blocks s p bs"
proof (induction bs arbitrary: p)
  case Nil
  then show ?case by simp
next
  case (Cons b bs)
  from tiles_less [OF Cons.prems] Cons show ?case by simp
qed

section \<open>The locators on a well-formed heap\<close>

subsection \<open>First fit\<close>

lemma ff_loop_tiles:
  "tiles (mem s) p bs (heap_end s) \<Longrightarrow>
   ff_loop s sz p = Some (case List.find (fits s sz) bs of Some b \<Rightarrow> b | None \<Rightarrow> heap_end s)"
proof (induction bs arbitrary: p)
  case Nil
  then show ?case by (subst ff_loop.simps) simp
next
  case (Cons b bs)
  from tiles_less [OF Cons.prems] Cons show ?case
    by (subst ff_loop.simps) simp
qed

lemma find_fits:
  "List.find P bs = Some b \<Longrightarrow> b \<in> set bs \<and> P b"
  by (auto simp: find_Some_iff)

lemma ff_get_free_block_tiles:
  assumes "mm_initialized s \<noteq> 0" and "tiles (mem s) (heap_start s) bs (heap_end s)"
  shows "\<exists>r. ff_get_free_block sz s = Some (Inr (r, s))
     \<and> ((r = NULL \<and> (\<forall>b\<in>set bs. \<not> fits s sz b)) \<or> (r \<in> set bs \<and> fits s sz r))"
proof (cases "List.find (fits s sz) bs")
  case None
  then have "\<forall>b\<in>set bs. \<not> fits s sz b" by (simp add: find_None_iff)
  with None assms ff_loop_tiles [OF assms(2), of sz] show ?thesis
    by (simp add: ff_get_free_block_def)
next
  case (Some b)
  then have b: "b \<in> set bs" "fits s sz b" by (auto dest: find_fits)
  from tiles_mem [OF assms(2) b(1)] have "32 \<le> unat (GET_SIZE (mem s) b)"
    "unat b + unat (GET_SIZE (mem s) b) \<le> unat (heap_end s)"
    by (simp_all add: block_ok_def)
  then have "b < heap_end s" by (simp add: word_less_nat_alt)
  then have "\<not> heap_end s \<le> b" by simp
  moreover from b(2) have "GET_STATUS (mem s) b \<noteq> ALLOC"
    by (simp add: fits_def FREE_def ALLOC_def)
  ultimately show ?thesis
    using Some assms b ff_loop_tiles [OF assms(2), of sz]
    by (simp add: ff_get_free_block_def)
qed


subsection \<open>Best fit\<close>

lemma bf_get_free_block_tiles:
  assumes "mm_initialized s \<noteq> 0" and "tiles (mem s) (heap_start s) bs (heap_end s)"
    and "NULL \<notin> set bs"
  shows "\<exists>r. bf_get_free_block sz s = Some (Inr (r, s))
     \<and> ((r = NULL \<and> (\<forall>b\<in>set bs. \<not> fits s sz b)) \<or> (r \<in> set bs \<and> fits s sz r))"
proof -
  let ?r = "bf_scan s sz bs NULL"
  have r: "bf_get_free_block sz s = Some (Inr (?r, s))"
    using assms(1) bf_loop_blocks [OF blocks_of_tiles [OF assms(2)]]
    by (simp add: bf_get_free_block_def)
  show ?thesis
  proof (cases "filter (fits s sz) bs = []")
    case True
    then have "\<forall>b\<in>set bs. \<not> fits s sz b" by (simp add: filter_empty_conv)
    with True bf_scan_NULL [OF assms(3), of s sz] r show ?thesis by simp
  next
    case False
    with bf_scan_NULL [OF assms(3), of s sz] have "first_min s (filter (fits s sz) bs) ?r"
      by simp
    then obtain ys zs where "filter (fits s sz) bs = ys @ ?r # zs"
      unfolding first_min_def by blast
    then have "?r \<in> set (filter (fits s sz) bs)"
      by simp
    then have "?r \<in> set bs \<and> fits s sz ?r"
      by simp
    with r show ?thesis by blast
  qed
qed

subsection \<open>Next fit\<close>

text \<open>
  \<open>nf_next s p\<close> is the step of the next-fit loop; \<open>steps s qs r\<close> says that the loop
  goes through the addresses \<open>qs\<close> in this order and from the last one to \<open>r\<close>.
\<close>

definition nf_next :: "mm_state \<Rightarrow> addr \<Rightarrow> addr" where
  "nf_next s p = (if 0 < GET_SIZE (mem s) p then p + GET_SIZE (mem s) p else heap_start s)"

fun steps :: "mm_state \<Rightarrow> addr list \<Rightarrow> addr \<Rightarrow> bool" where
  "steps s [] r = True"
| "steps s [q] r = (nf_next s q = r)"
| "steps s (q # q' # qs) r = (nf_next s q = q' \<and> steps s (q' # qs) r)"

lemma steps_append:
  "xs \<noteq> [] \<Longrightarrow> ys \<noteq> [] \<Longrightarrow> steps s xs (hd ys) \<Longrightarrow> steps s ys r \<Longrightarrow> steps s (xs @ ys) r"
proof (induction s xs r rule: steps.induct)
  case (1 s r)
  then show ?case by simp
next
  case (2 s q r)
  then show ?case by (cases ys) simp_all
next
  case (3 s q q' qs r)
  then show ?case by simp
qed

lemma nf_loop_steps:
  "steps s (q # qs) c \<Longrightarrow> c \<notin> set qs \<Longrightarrow> next_block s = c \<Longrightarrow>
   nf_loop s sz q = Some (case List.find (fits s sz) (q # qs) of Some b \<Rightarrow> b | None \<Rightarrow> c)"
proof (induction qs arbitrary: q)
  case Nil
  then show ?case
    by (subst nf_loop.simps) (simp add: nf_next_def Let_def)
next
  case (Cons q' qs)
  then have n: "nf_next s q = q'" and "steps s (q' # qs) c" and "c \<notin> set qs" and "q' \<noteq> c"
    by auto
  with Cons.IH [of q'] Cons.prems(3)
  have ih: "nf_loop s sz q' =
     Some (case List.find (fits s sz) (q' # qs) of Some b \<Rightarrow> b | None \<Rightarrow> c)"
    by simp
  show ?case
  proof (cases "fits s sz q")
    case True
    then show ?thesis by (subst nf_loop.simps) simp
  next
    case False
    with n \<open>q' \<noteq> c\<close> Cons.prems(3) ih show ?thesis
      by (subst nf_loop.simps) (simp add: nf_next_def Let_def)
  qed
qed

lemma tiles_steps:
  "tiles (mem s) p bs e \<Longrightarrow> bs \<noteq> [] \<Longrightarrow> steps s bs e"
proof (induction bs arbitrary: p)
  case Nil
  then show ?case by simp
next
  case (Cons b bs)
  then have sz: "32 \<le> unat (GET_SIZE (mem s) p)" and bp: "b = p" by (simp_all add: block_ok_def)
  then have "0 < GET_SIZE (mem s) p" by (simp add: word_less_nat_alt)
  then have n: "nf_next s p = p + GET_SIZE (mem s) p" by (simp add: nf_next_def)
  show ?case
  proof (cases bs)
    case Nil
    with Cons.prems n bp show ?thesis by simp
  next
    case (Cons b' bs')
    with Cons.prems Cons.IH [of "p + GET_SIZE (mem s) p"] n bp show ?thesis by simp
  qed
qed


text \<open>
  \<open>heap_ok s bs\<close> is the invariant of the heap between calls: the module is initialised;
  \<open>heap_start\<close> is a multiple of 32; the blocks \<open>bs\<close> tile the heap from \<open>heap_start\<close>
  to \<open>heap_end\<close>; the end sentinel is in place; the heap lies in the data segment and
  \<open>heap_end\<close> is the break, less one, rounded down to a multiple of 32, as \<open>mm_init\<close> and
  the heap growth compute it; the data segment lies in the lower half of the address
  space.
\<close>

definition heap_ok :: "mm_state \<Rightarrow> addr list \<Rightarrow> bool" where
  "heap_ok s bs \<longleftrightarrow>
     mm_initialized s \<noteq> 0 \<and> bs \<noteq> []
     \<and> 32 dvd unat (heap_start s) \<and> 32 \<le> unat (heap_start s)
     \<and> tiles (mem s) (heap_start s) bs (heap_end s)
     \<and> GET (mem s) (heap_end s) = PACK 0 ALLOC
     \<and> unat (ds_start (dseg s)) \<le> unat (heap_start s)
     \<and> (ds_break (dseg s) - 1) div BS * BS = heap_end s
     \<and> unat (heap_end s) < unat (ds_break (dseg s))
     \<and> unat (ds_break (dseg s)) \<le> unat (ds_limit (dseg s))
     \<and> unat (ds_limit (dseg s)) < 2 ^ 63"

lemma heap_okD:
  assumes "heap_ok s bs"
  shows "mm_initialized s \<noteq> 0" and "bs \<noteq> []"
    and "32 dvd unat (heap_start s)" and "32 \<le> unat (heap_start s)"
    and "tiles (mem s) (heap_start s) bs (heap_end s)"
    and "GET (mem s) (heap_end s) = PACK 0 ALLOC"
    and "unat (ds_start (dseg s)) \<le> unat (heap_start s)"
    and "(ds_break (dseg s) - 1) div BS * BS = heap_end s"
    and "unat (heap_end s) < unat (ds_break (dseg s))"
    and "unat (ds_break (dseg s)) \<le> unat (ds_limit (dseg s))"
    and "unat (ds_limit (dseg s)) < 2 ^ 63"
  using assms by (simp_all add: heap_ok_def)

lemma heap_ok_not_NULL:
  assumes "heap_ok s bs" and "b \<in> set bs"
  shows "b \<noteq> NULL"
proof -
  from assms have "unat (heap_start s) \<le> unat b" and "32 \<le> unat (heap_start s)"
    by (auto dest: heap_okD tiles_mem)
  then have "unat b \<noteq> 0" by simp
  then show ?thesis by (auto simp: NULL_def)
qed

lemma sentinel_not_fits:
  assumes "GET (mem s) e = PACK 0 ALLOC"
  shows "\<not> fits s sz e" and "nf_next s e = heap_start s"
  using assms by (simp_all add: fits_def nf_next_def macro_defs)

lemma nf_cycle:
  assumes "heap_ok s bs" and "bs = xs @ c # ys" and "next_block s = c"
  shows "steps s (c # (ys @ heap_end s # xs)) c \<and> c \<notin> set (ys @ heap_end s # xs)"
proof -
  let ?m = "mem s" and ?e = "heap_end s" and ?h = "heap_start s"
  from assms have t: "tiles ?m ?h (xs @ c # ys) ?e" by (auto dest: heap_okD(5))
  then obtain q where q: "tiles ?m ?h xs q" "tiles ?m q (c # ys) ?e"
    by (auto simp: tiles_append)
  then have qc: "q = c" by simp
  have s1: "steps s (c # ys) ?e"
    using q(2) qc by (auto intro: tiles_steps)
  have se: "nf_next s ?e = ?h"
    using heap_okD(6) [OF assms(1)] by (rule sentinel_not_fits)
  have s2: "steps s (?e # xs) c"
  proof (cases xs)
    case Nil
    with q(1) qc se show ?thesis by simp
  next
    case (Cons x xs')
    with q(1) qc have "steps s xs c" and "hd xs = ?h"
      by (auto intro: tiles_steps)
    with se Cons steps_append [of "[?e]" xs s c] show ?thesis by simp
  qed
  from s1 s2 steps_append [of "c # ys" "?e # xs" s c]
  have st: "steps s (c # (ys @ ?e # xs)) c" by simp
  have cb: "block_ok ?m c" "unat c + unat (GET_SIZE ?m c) \<le> unat ?e"
    using q(2) qc by simp_all
  then have c32: "32 \<le> unat (GET_SIZE ?m c)" by (simp add: block_ok_def)
  have ca: "unat (c + GET_SIZE ?m c) = unat c + unat (GET_SIZE ?m c)"
    using cb(2) by (rule unat_add_bounded)
  have n1: "c \<notin> set ys"
  proof
    assume "c \<in> set ys"
    moreover from q(2) qc have "tiles ?m (c + GET_SIZE ?m c) ys ?e" by simp
    ultimately have "unat (c + GET_SIZE ?m c) \<le> unat c"
      by (auto dest: tiles_mem)
    with ca c32 show False by simp
  qed
  have n2: "c \<noteq> ?e"
    using cb(2) c32 by auto
  have n3: "c \<notin> set xs"
  proof
    assume "c \<in> set xs"
    with q(1) qc have "unat c + unat (GET_SIZE ?m c) \<le> unat c"
      by (auto dest: tiles_mem)
    with c32 show False by simp
  qed
  from st n1 n2 n3 show ?thesis by simp
qed

lemma nf_get_free_block_tiles:
  assumes "heap_ok s bs" and "next_block s \<in> set bs"
  shows "\<exists>r. nf_get_free_block sz s
        = Some (Inr (r, if r = NULL then s else s\<lparr>next_block := r\<rparr>))
     \<and> ((r = NULL \<and> (\<forall>b\<in>set bs. \<not> fits s sz b)) \<or> (r \<in> set bs \<and> fits s sz r))"
proof -
  let ?c = "next_block s"
  from assms(2) obtain xs ys where bs: "bs = xs @ ?c # ys"
    by (auto dest: split_list)
  let ?cyc = "?c # (ys @ heap_end s # xs)"
  from nf_cycle [OF assms(1) bs] have st: "steps s ?cyc ?c" "?c \<notin> set (ys @ heap_end s # xs)"
    by simp_all
  have loop: "nf_loop s sz ?c
      = Some (case List.find (fits s sz) ?cyc of Some b \<Rightarrow> b | None \<Rightarrow> ?c)"
    using st by (intro nf_loop_steps) simp_all
  have ne: "\<not> fits s sz (heap_end s)"
    using heap_okD(6) [OF assms(1)] by (rule sentinel_not_fits)
  have i: "mm_initialized s \<noteq> 0" using assms(1) by (rule heap_okD)
  show ?thesis
  proof (cases "List.find (fits s sz) ?cyc")
    case None
    then have all: "\<forall>b\<in>set ?cyc. \<not> fits s sz b"
      using find_None_iff [of "fits s sz" ?cyc] by blast
    with bs have nb: "\<forall>b\<in>set bs. \<not> fits s sz b" by auto
    from assms have "block_ok (mem s) ?c" by (auto dest: heap_okD(5) tiles_mem)
    then have "GET_STATUS (mem s) ?c = FREE \<or> GET_STATUS (mem s) ?c = ALLOC"
      by (simp add: block_ok_def)
    with all have "GET_STATUS (mem s) ?c = ALLOC \<or> GET_SIZE (mem s) ?c < sz"
      by (auto simp: fits_def)
    with None loop i nb show ?thesis
      by (simp add: nf_get_free_block_def NULL_def)
  next
    case (Some b)
    from find_fits [OF Some] have b: "b \<in> set ?cyc" "fits s sz b" by blast+
    with ne bs have bb: "b \<in> set bs" by auto
    with assms(1) have nn: "b \<noteq> NULL" by (rule heap_ok_not_NULL)
    from b(2) have "\<not> (GET_STATUS (mem s) b = ALLOC \<or> GET_SIZE (mem s) b < sz)"
      by (auto simp: fits_def FREE_def ALLOC_def)
    with Some loop i nn bb b(2) show ?thesis
      by (simp add: nf_get_free_block_def)
  qed
qed

lemma call_get_free_block_tiles:
  assumes "heap_ok s bs" and "get_free_block s = Some ap"
    and "ap = ap_NextFit \<longrightarrow> next_block s \<in> set bs"
  shows "\<exists>r c. call_get_free_block sz s = Some (Inr (r, s\<lparr>next_block := c\<rparr>))
     \<and> (c = next_block s \<or> c = r \<and> r \<in> set bs)
     \<and> ((r = NULL \<and> (\<forall>b\<in>set bs. \<not> fits s sz b)) \<or> (r \<in> set bs \<and> fits s sz r))"
proof -
  have i: "mm_initialized s \<noteq> 0" and t: "tiles (mem s) (heap_start s) bs (heap_end s)"
    using assms(1) by (rule heap_okD)+
  have n: "NULL \<notin> set bs"
    using assms(1) by (auto dest: heap_ok_not_NULL)
  have u: "s\<lparr>next_block := next_block s\<rparr> = s" by simp
  have same: "\<exists>r c. call_get_free_block sz s = Some (Inr (r, s\<lparr>next_block := c\<rparr>))
     \<and> (c = next_block s \<or> c = r \<and> r \<in> set bs)
     \<and> ((r = NULL \<and> (\<forall>b\<in>set bs. \<not> fits s sz b)) \<or> (r \<in> set bs \<and> fits s sz r))"
    if "call_get_free_block sz s = Some (Inr (r, s))"
      and "(r = NULL \<and> (\<forall>b\<in>set bs. \<not> fits s sz b)) \<or> (r \<in> set bs \<and> fits s sz r)" for r
  proof -
    from that(1) u have "call_get_free_block sz s = Some (Inr (r, s\<lparr>next_block := next_block s\<rparr>))"
      by simp
    with that(2) show ?thesis by blast
  qed
  show ?thesis
  proof (cases ap)
    case ap_FirstFit
    from ff_get_free_block_tiles [OF i t, of sz] obtain r where
      "ff_get_free_block sz s = Some (Inr (r, s))"
      "(r = NULL \<and> (\<forall>b\<in>set bs. \<not> fits s sz b)) \<or> (r \<in> set bs \<and> fits s sz r)"
      by blast
    with ap_FirstFit assms(2) show ?thesis
      by (intro same [of r]) (simp_all add: call_get_free_block_def)
  next
    case ap_BestFit
    from bf_get_free_block_tiles [OF i t n, of sz] obtain r where
      "bf_get_free_block sz s = Some (Inr (r, s))"
      "(r = NULL \<and> (\<forall>b\<in>set bs. \<not> fits s sz b)) \<or> (r \<in> set bs \<and> fits s sz r)"
      by blast
    with ap_BestFit assms(2) show ?thesis
      by (intro same [of r]) (simp_all add: call_get_free_block_def)
  next
    case ap_NextFit
    with assms(3) have "next_block s \<in> set bs" by simp
    from nf_get_free_block_tiles [OF assms(1) this, of sz] obtain r where
      r: "nf_get_free_block sz s = Some (Inr (r, if r = NULL then s else s\<lparr>next_block := r\<rparr>))"
        "(r = NULL \<and> (\<forall>b\<in>set bs. \<not> fits s sz b)) \<or> (r \<in> set bs \<and> fits s sz r)"
      by blast
    show ?thesis
    proof (cases "r = NULL")
      case True
      with r n have "\<forall>b\<in>set bs. \<not> fits s sz b" by auto
      moreover from True r(1) ap_NextFit assms(2)
      have "call_get_free_block sz s = Some (Inr (r, s))"
        by (simp add: call_get_free_block_def)
      ultimately show ?thesis
        using True by (intro same [of r]) simp_all
    next
      case False
      with r n have "r \<in> set bs" and "fits s sz r" by auto
      moreover from False r(1) ap_NextFit assms(2)
      have "call_get_free_block sz s = Some (Inr (r, s\<lparr>next_block := r\<rparr>))"
        by (simp add: call_get_free_block_def)
      ultimately show ?thesis by blast
    qed
  qed
qed


subsection \<open>Tags of blocks\<close>

lemma and_7_of_32: "32 dvd unat (x :: 64 word) \<Longrightarrow> x AND 7 = 0"
proof -
  assume "32 dvd unat x"
  then have "8 dvd unat x" by (rule dvd_trans [rotated]) simp
  then show ?thesis by (rule and_7_eq_0)
qed

lemma tag_simps:
  assumes "32 dvd unat (x :: 64 word)"
  shows "SIZE (PACK x FREE) = x" and "SIZE (PACK x ALLOC) = x"
    and "STATUS (PACK x FREE) = FREE" and "STATUS (PACK x ALLOC) = ALLOC"
  using and_7_of_32 [OF assms]
  by (simp_all add: SIZE_PACK STATUS_PACK FREE_def ALLOC_def)

lemma unat_sub_bounded:
  fixes x y :: "64 word"
  assumes "unat y \<le> unat x"
  shows "unat (x - y) = unat x - unat y"
  using assms by (simp add: unat_sub word_le_nat_alt)

lemma neq_of_unat: "unat (a :: 64 word) \<noteq> unat b \<Longrightarrow> a \<noteq> b"
  by auto

lemma block_okI:
  assumes "GET m p = PACK x st" and "st = FREE \<or> st = ALLOC" and "32 dvd unat x"
    and "32 \<le> unat x" and "GET m (p + x - 8) = PACK x st"
  shows "block_ok m p \<and> GET_SIZE m p = x \<and> GET_STATUS m p = st"
proof -
  from assms(1,2,3) have sz: "GET_SIZE m p = x" and st: "GET_STATUS m p = st"
    by (auto simp: GET_SIZE_def GET_STATUS_def tag_simps)
  then have "END m p = p + x - 8"
    by (simp add: END_def PREV_PTR_def TYPE_SIZE_def)
  with assms sz st show ?thesis
    by (simp add: block_ok_def)
qed


subsection \<open>Placing a block\<close>

lemma place_eq:
  "place req b s =
     (b + TYPE_SIZE,
      s\<lparr>mem :=
         (if GET_SIZE (mem s) b - req \<noteq> 0 then
            (mem s)(b := PACK req ALLOC, b + req - 8 := PACK req ALLOC,
                    b + req := PACK (GET_SIZE (mem s) b - req) FREE,
                    b + req + (GET_SIZE (mem s) b - req) - 8
                      := PACK (GET_SIZE (mem s) b - req) FREE)
          else (mem s)(b := PACK req ALLOC, b + req - 8 := PACK req ALLOC))\<rparr>)"
  by (simp add: place_def put_def Let_def PUT_def PREV_PTR_def TYPE_SIZE_def)

lemma agree_upd:
  assumes "agree m m' p e" and "unat x < unat p \<or> unat e \<le> unat x"
  shows "agree m (m'(x := v)) p e"
  using assms by (auto simp: agree_def)

lemma agree_refl: "agree m m p e"
  by (simp add: agree_def)

lemma place_tiles:
  assumes t: "tiles (mem s) p bs e" and b: "b \<in> set bs"
    and r32: "32 dvd unat req" "32 \<le> unat req"
    and fit: "unat req \<le> unat (GET_SIZE (mem s) b)"
  shows "\<exists>m' bs'. place req b s = (b + TYPE_SIZE, s\<lparr>mem := m'\<rparr>)
      \<and> tiles m' p bs' e \<and> b \<in> set bs' \<and> set bs \<subseteq> set bs'
      \<and> GET m' b = PACK req ALLOC
      \<and> (\<forall>a. unat a < unat b \<or> unat b + unat (GET_SIZE (mem s) b) \<le> unat a
            \<longrightarrow> m' a = mem s a)"
proof -
  let ?m = "mem s"
  let ?S = "GET_SIZE ?m b"
  let ?T = "PACK req ALLOC"
  let ?F = "PACK (?S - req) FREE"
  from tiles_split [OF t b] obtain xs ys where
    bs: "bs = xs @ b # ys" and tx: "tiles ?m p xs b" and ty: "tiles ?m b (b # ys) e"
    by blast
  from ty have ok: "block_ok ?m b" and le: "unat b + unat ?S \<le> unat e"
    and ty': "tiles ?m (b + ?S) ys e"
    by simp_all
  from ok have S32: "32 dvd unat ?S" "32 \<le> unat ?S" by (simp_all add: block_ok_def)
  have uS: "unat (b + ?S) = unat b + unat ?S"
    using le by (rule unat_add_bounded)
  have ur: "unat (b + req) = unat b + unat req"
    using le fit by (intro unat_add_bounded [of _ _ e]) simp
  have ur8: "unat (b + req - 8) = unat b + unat req - 8"
    using ur r32(2) by (simp add: unat_sub_bounded)
  have ud: "unat (?S - req) = unat ?S - unat req"
    using fit by (rule unat_sub_bounded)
  have sum: "b + req + (?S - req) = b + ?S" by simp
  have uS8: "unat (b + ?S - 8) = unat b + unat ?S - 8"
    using uS S32(2) by (simp add: unat_sub_bounded)
  let ?m1 = "?m(b := ?T, b + req - 8 := ?T)"
  have n1: "b + req - 8 \<noteq> b"
    using ur8 r32(2) by (intro neq_of_unat) simp
  have b1: "block_ok ?m1 b \<and> GET_SIZE ?m1 b = req \<and> GET_STATUS ?m1 b = ALLOC"
    using n1 r32 by (intro block_okI) (simp_all add: GET_def)
  have a1x: "agree ?m ?m1 p b"
    using ur8 r32(2) by (intro agree_upd agree_refl; arith)
  have a1y: "agree ?m ?m1 (b + ?S) e"
    using ur8 uS fit r32(2) S32(2) by (intro agree_upd agree_refl; arith)
  have out1: "\<forall>a. unat a < unat b \<or> unat b + unat ?S \<le> unat a \<longrightarrow> ?m1 a = ?m a"
  proof (intro allI impI)
    fix a :: addr assume a: "unat a < unat b \<or> unat b + unat ?S \<le> unat a"
    with ur8 r32(2) fit have "a \<noteq> b" and "a \<noteq> b + req - 8"
      by (auto intro!: neq_of_unat)
    then show "?m1 a = ?m a" by simp
  qed
  show ?thesis
  proof (cases "?S - req = 0")
    case True
    then have eq: "?S = req" by simp
    have p: "place req b s = (b + TYPE_SIZE, s\<lparr>mem := ?m1\<rparr>)"
      using True by (simp add: place_eq)
    have "tiles ?m1 b (b # ys) e"
      using b1 le eq tiles_agree [OF ty' a1y] by simp
    with tiles_agree [OF tx a1x] have "tiles ?m1 p (xs @ b # ys) e"
      by (auto simp: tiles_append)
    with p bs out1 n1 show ?thesis
      by (intro exI [of _ ?m1] exI [of _ bs]) (simp add: GET_def)
  next
    case False
    let ?f = "b + req"
    let ?m2 = "?m1(?f := ?F, ?f + (?S - req) - 8 := ?F)"
    have p: "place req b s = (b + TYPE_SIZE, s\<lparr>mem := ?m2\<rparr>)"
      using False by (simp add: place_eq)
    from False have "unat (?S - req) \<noteq> 0" by (simp add: unat_eq_0)
    with ud have lt: "unat req < unat ?S" by simp
    from S32(1) r32(1) have d32: "32 dvd unat ?S - unat req" by (rule dvd_diff_nat)
    with lt have ge: "32 \<le> unat ?S - unat req" by (auto dest: dvd_imp_le)
    have nf1: "?f \<noteq> b" using ur r32(2) by (intro neq_of_unat) simp
    have nf2: "?f \<noteq> b + req - 8" using ur ur8 r32(2) by (intro neq_of_unat) simp
    have ne1: "b + ?S - 8 \<noteq> b" using uS8 S32(2) by (intro neq_of_unat) simp
    have ne2: "b + ?S - 8 \<noteq> b + req - 8" using uS8 ur8 lt r32(2) by (intro neq_of_unat) simp
    have ne3: "b + ?S - 8 \<noteq> ?f" using uS8 ur ge lt by (intro neq_of_unat) simp
    have b2: "block_ok ?m2 b \<and> GET_SIZE ?m2 b = req \<and> GET_STATUS ?m2 b = ALLOC"
      using n1 nf1 nf2 ne1 ne2 r32 by (intro block_okI) (auto simp: GET_def sum)
    have f2: "block_ok ?m2 ?f \<and> GET_SIZE ?m2 ?f = ?S - req \<and> GET_STATUS ?m2 ?f = FREE"
      using ne3 d32 ge ud by (intro block_okI) (auto simp: GET_def sum)
    have a2x: "agree ?m ?m2 p b"
      unfolding sum using ur ur8 uS8 S32(2) r32(2) by (intro agree_upd agree_refl; arith)
    have a2y: "agree ?m ?m2 (b + ?S) e"
      unfolding sum using ur ur8 uS uS8 lt fit S32(2) r32(2)
      by (intro agree_upd agree_refl; arith)
    have out2: "\<forall>a. unat a < unat b \<or> unat b + unat ?S \<le> unat a \<longrightarrow> ?m2 a = ?m a"
    proof (intro allI impI)
      fix a :: addr assume a: "unat a < unat b \<or> unat b + unat ?S \<le> unat a"
      with ur uS8 lt S32(2) have "a \<noteq> ?f" and "a \<noteq> b + ?S - 8"
        by (auto intro!: neq_of_unat)
      moreover from out1 a have "?m1 a = ?m a" by blast
      ultimately show "?m2 a = ?m a" by (simp add: sum)
    qed
    have "tiles ?m2 ?f (?f # ys) e"
      using f2 ur ud lt le tiles_agree [OF ty' a2y] by (simp add: sum)
    then have "tiles ?m2 b (b # ?f # ys) e"
      using b2 ur lt le by simp
    with tiles_agree [OF tx a2x] have "tiles ?m2 p (xs @ b # ?f # ys) e"
      by (auto simp: tiles_append)
    moreover have "GET ?m2 b = ?T"
      using n1 nf1 ne1 by (auto simp: GET_def sum)
    ultimately show ?thesis
      using p bs out2
      by (intro exI [of _ ?m2] exI [of _ "xs @ b # ?f # ys"]) auto
  qed
qed


subsection \<open>The data segment\<close>

lemma uint_eq: "uint (w :: 64 word) = int (unat w)"
  by simp

lemma sint_small:
  fixes c :: "64 word"
  assumes "unat c < 2 ^ 63"
  shows "sint c = int (unat c)"
proof -
  have n: "unat c < 9223372036854775808" using assms by simp
  have "int (unat c) < 9223372036854775808" using n by linarith
  then have "uint c < 2 ^ 63" by simp
  moreover have "- (2 ^ 63) \<le> uint c"
    using uint_ge_0 [of c] by (simp add: order_trans [of _ 0])
  ultimately have "uint c < 2 ^ 63" and "- (2 ^ 63) \<le> uint c" by simp_all
  then have "signed_take_bit 63 (uint c) = uint c"
    by (intro signed_take_bit_int_eq_self)
  then show ?thesis
    by (simp add: sint_uint)
qed

lemma sint_neg_small:
  fixes c :: "64 word"
  assumes "unat c < 2 ^ 63"
  shows "sint (- c) = - int (unat c)"
proof -
  have n: "unat c < 9223372036854775808" using assms by simp
  have "- 9223372036854775808 \<le> - int (unat c)" and "- int (unat c) < 9223372036854775808"
    using n by linarith+
  then have "- (2 ^ 63) \<le> - uint c" and "- uint c < 2 ^ 63" by simp_all
  then have "signed_take_bit 63 (- uint c) = - uint c"
    by (intro signed_take_bit_int_eq_self)
  then show ?thesis
    using sint_small [OF assms] by (simp add: sint_word_minus)
qed

lemma hend_unat:
  fixes brk :: "64 word"
  assumes "1 \<le> unat brk"
  shows "unat ((brk - 1) div 32 * 32) = (unat brk - 1) div 32 * 32"
proof -
  have a: "unat (brk - 1) = unat brk - 1"
    using assms by (simp add: unat_sub_bounded)
  have b: "unat ((brk - 1) div 32) = (unat brk - 1) div 32"
    using a by (simp add: unat_div)
  have lt: "unat brk < 2 ^ 64"
    using unsigned_less [of brk] by simp
  have "(unat brk - 1) div 32 * 32 \<le> unat brk - 1" by simp
  with lt have "(unat brk - 1) div 32 * 32 < 2 ^ 64" by linarith
  then have "unat ((brk - 1) div 32 * 32) = unat ((brk - 1) div 32) * 32"
    using b unat_mult_lem [of "(brk - 1) div 32" 32] by simp
  with b show ?thesis by simp
qed

lemma ds_sbrk_grow:
  assumes "unat (ds_break d) + unat c \<le> unat (ds_limit d)" and "unat (ds_limit d) < 2 ^ 63"
    and "unat (ds_start d) \<le> unat (ds_break d)"
  shows "ds_sbrk c d = (ds_break d + c, d\<lparr>ds_break := ds_break d + c\<rparr>)"
proof -
  have "unat c < 2 ^ 63" using assms(1,2) by simp
  then have s: "sint c = uint c" by (simp add: sint_small)
  have "\<not> (uint (ds_break d) + uint c < uint (ds_start d)
       \<or> uint (ds_limit d) < uint (ds_break d) + uint c)"
    unfolding uint_eq using assms by linarith
  moreover have "word_of_int (uint (ds_break d) + uint c) = ds_break d + c"
    by simp
  ultimately show ?thesis
    unfolding ds_sbrk_def Let_def s by (simp only: if_False)
qed

lemma ds_sbrk_shrink:
  assumes "unat (ds_start d) + unat c \<le> unat (ds_break d)"
    and "unat (ds_break d) \<le> unat (ds_limit d)" and "unat (ds_limit d) < 2 ^ 63"
  shows "ds_sbrk (- c) d = (ds_break d - c, d\<lparr>ds_break := ds_break d - c\<rparr>)"
proof -
  have "unat c < 2 ^ 63" using assms by simp
  then have s: "sint (- c) = - uint c" by (simp add: sint_neg_small)
  have "\<not> (uint (ds_break d) + - uint c < uint (ds_start d)
       \<or> uint (ds_limit d) < uint (ds_break d) + - uint c)"
    unfolding uint_eq using assms by linarith
  moreover have "word_of_int (uint (ds_break d) + - uint c) = ds_break d - c"
    by simp
  ultimately show ?thesis
    unfolding ds_sbrk_def Let_def s by (simp only: if_False)
qed

lemma ds_sbrk_zero:
  assumes "unat (ds_start d) \<le> unat (ds_break d)" and "unat (ds_break d) \<le> unat (ds_limit d)"
  shows "ds_sbrk 0 d = (ds_break d, d)"
proof -
  have "\<not> (uint (ds_break d) < uint (ds_start d) \<or> uint (ds_limit d) < uint (ds_break d))"
    unfolding uint_eq using assms by linarith
  then show ?thesis
    by (simp add: ds_sbrk_def Let_def)
qed


subsection \<open>Growing the heap\<close>

lemma expand_heap_eq:
  assumes "(if GET_STATUS (mem s) (PREV_PTR (heap_end s)) = FREE
            then GET_SIZE (mem s) (PREV_PTR (heap_end s)) else 0) = T"
    and "ceil_to (unat CHUNKSIZE) (req - T + 1) = Some c"
    and "(if c < INITCHUNK then INITCHUNK else c) = chunk"
    and "ds_sbrk chunk (dseg s) = (r1, d1)"
    and "ds_sbrk 0 d1 = (brk, d2)"
    and "(brk - 1) div BS * BS = he"
  shows "expand_heap req s =
     Inr (he - (T + (he - heap_end s)),
          s\<lparr>dseg := d2, ds_heap_brk := brk, heap_end := he,
            mem := (mem s)
              (he - (T + (he - heap_end s)) := PACK (T + (he - heap_end s)) FREE,
               he - 8 := PACK (T + (he - heap_end s)) FREE,
               he := PACK 0 ALLOC),
            next_block := he - (T + (he - heap_end s))\<rparr>)"
  by (simp only: expand_heap_def Let_def assms(1))
     (simp add: assms(2-) sbrk_def put_def PUT_def PREV_PTR_def TYPE_SIZE_def)


lemma ceil_chunk:
  assumes "unat x < 2 ^ 53"
  shows "\<exists>c. ceil_to (unat CHUNKSIZE) x = Some c \<and> 4096 dvd unat c \<and> unat x \<le> unat c
           \<and> unat c \<le> unat x + 4095"
proof -
  define C where "C = (unat x + 4096 - 1) div 4096 * 4096"
  define c :: "64 word" where "c = of_nat C"
  have n: "unat x < 9007199254740992" using assms by simp
  have le: "C \<le> unat x + 4095" by (simp add: C_def)
  with n have "C < 2 ^ 64" by simp
  then have u: "unat c = C"
    unfolding c_def by (subst unat_of_nat) simp
  have ge: "unat x \<le> C"
  proof -
    have "unat x + 4095 = (unat x + 4095) div 4096 * 4096 + (unat x + 4095) mod 4096"
      by simp
    moreover have "(unat x + 4095) mod 4096 < 4096" by simp
    ultimately have "unat x + 4095 < (unat x + 4095) div 4096 * 4096 + 4096" by linarith
    then show ?thesis by (simp add: C_def)
  qed
  have d: "4096 dvd C" by (simp add: C_def)
  have "ceil_to (unat CHUNKSIZE) x = Some c"
    unfolding c_def C_def using assms by (simp add: ceil_to_small CHUNKSIZE_def)
  with u le ge d show ?thesis by blast
qed

lemma hend_add:
  assumes "32 dvd (c :: nat)" and "1 \<le> b"
  shows "(b + c - 1) div 32 * 32 = (b - 1) div 32 * 32 + c"
proof -
  from assms(1) obtain k where k: "c = 32 * k" by (auto elim: dvdE)
  from assms(2) have "b + c - 1 = (b - 1) + k * 32" using k by simp
  then have "(b + c - 1) div 32 = (b - 1) div 32 + k" by simp
  with k show ?thesis by (simp add: algebra_simps)
qed

lemma word_eq_of_unat: "unat (a :: 64 word) = unat b \<Longrightarrow> a = b"
  by (simp add: word_unat_eq_iff)

lemma expand_heap_tiles:
  assumes ok: "heap_ok s bs"
    and r: "32 dvd unat req" "32 \<le> unat req" "unat req < 2 ^ 53"
    and nofit: "\<forall>b\<in>set bs. \<not> fits s req b"
    and room: "unat (ds_break (dseg s)) + unat req + 65536 \<le> unat (ds_limit (dseg s))"
  shows "\<exists>b s' bs'. expand_heap req s = Inr (b, s') \<and> heap_ok s' bs' \<and> b \<in> set bs'
      \<and> unat req \<le> unat (GET_SIZE (mem s') b)
      \<and> heap_start s' = heap_start s \<and> get_free_block s' = get_free_block s
      \<and> next_block s' = b"
proof -
  let ?m = "mem s" and ?he = "heap_end s" and ?hs = "heap_start s"
  let ?d = "dseg s"
  let ?brk = "ds_break ?d"
  note okD = heap_okD [OF ok]
  have n53: "unat req < 9007199254740992" using r(3) by simp
  have lim: "unat (ds_limit ?d) < 9223372036854775808" using okD(11) by simp
  from okD(2) obtain xs l where bs: "bs = xs @ [l]"
    by (auto simp: neq_Nil_conv intro: rev_exhaust [of bs])
  with okD(5) obtain q where "tiles ?m ?hs xs q" "tiles ?m q [l] ?he"
    by (auto simp: tiles_append)
  then have tx: "tiles ?m ?hs xs l" and tl: "tiles ?m l [l] ?he" by simp_all
  let ?S = "GET_SIZE ?m l"
  from tl have lok: "block_ok ?m l" and lle: "unat l + unat ?S \<le> unat ?he"
    and lend: "l + ?S = ?he"
    by simp_all
  from lok have S32: "32 dvd unat ?S" "32 \<le> unat ?S" by (simp_all add: block_ok_def)
  have hsle: "unat ?hs \<le> unat ?he" using okD(5) by (rule tiles_le)
  have foot: "GET ?m (PREV_PTR ?he) = GET ?m l"
    using lok lend by (simp add: block_ok_def END_def)
  define T where "T = (if GET_STATUS ?m l = FREE then ?S else 0)"
  have Teq: "(if GET_STATUS ?m (PREV_PTR ?he) = FREE then GET_SIZE ?m (PREV_PTR ?he) else 0) = T"
    using foot by (simp add: T_def GET_STATUS_def GET_SIZE_def)
  have Tlt: "unat T < unat req"
  proof (cases "GET_STATUS ?m l = FREE")
    case True
    from nofit bs have "\<not> fits s req l" by simp
    with True have "?S < req" by (simp add: fits_def)
    with True show ?thesis by (simp add: T_def word_less_nat_alt)
  next
    case False
    with r(2) show ?thesis by (simp add: T_def)
  qed
  have T32: "32 dvd unat T" using S32 by (simp add: T_def)
  have Tle: "unat T \<le> unat ?S" by (simp add: T_def)
  define start where "start = ?he - T"
  have ustart: "unat start = unat ?he - unat T"
    unfolding start_def using Tle lle by (intro unat_sub_bounded) simp
  have ux1: "unat (req - T) = unat req - unat T"
    using Tlt by (intro unat_sub_bounded) simp
  have ux: "unat (req - T + 1) = unat req - unat T + 1"
  proof -
    have "unat (req - T) + unat (1 :: 64 word) \<le> unat (9007199254740992 :: 64 word)"
      using ux1 n53 by simp
    then have "unat (req - T + 1) = unat (req - T) + unat (1 :: 64 word)"
      by (rule unat_add_bounded)
    with ux1 show ?thesis by simp
  qed
  have "unat req + 1 < 9007199254740992"
  proof -
    from r(1) obtain k where k: "unat req = 32 * k" by (auto elim: dvdE)
    with n53 have "k < 281474976710656" by simp
    then have "32 * k + 1 < 9007199254740992" by simp
    with k show ?thesis by simp
  qed
  then have "unat req - unat T + 1 < 9007199254740992" by arith
  then have "unat (req - T + 1) < 2 ^ 53" using ux by simp
  from ceil_chunk [OF this] ux obtain c where
    c: "ceil_to (unat CHUNKSIZE) (req - T + 1) = Some c" "4096 dvd unat c"
      "unat req - unat T + 1 \<le> unat c" "unat c \<le> unat req - unat T + 1 + 4095"
    by auto
  define chunk where "chunk = (if c < INITCHUNK then INITCHUNK else c)"
  have ch: "4096 dvd unat chunk" "65536 \<le> unat chunk" "unat req - unat T + 1 \<le> unat chunk"
    "unat chunk \<le> unat req + 65536"
    using c Tlt by (auto simp: chunk_def INITCHUNK_def CHUNKSIZE_def word_less_nat_alt)
  then have ch32: "32 dvd unat chunk" by (auto elim: dvd_trans [rotated])
  have grow: "unat ?brk + unat chunk \<le> unat (ds_limit ?d)"
    using room ch(4) by simp
  have sb: "unat (ds_start ?d) \<le> unat ?brk"
    using okD(7,9) hsle by simp
  let ?brk' = "?brk + chunk"
  let ?d1 = "?d\<lparr>ds_break := ?brk'\<rparr>"
  have ubrk': "unat ?brk' = unat ?brk + unat chunk"
    using grow by (rule unat_add_bounded)
  have sb1: "ds_sbrk chunk ?d = (?brk', ?d1)"
    using grow okD(11) sb by (rule ds_sbrk_grow)
  have sb2: "ds_sbrk 0 ?d1 = (?brk', ?d1)"
    using ds_sbrk_zero [of ?d1] sb grow ubrk' by simp
  define he' where "he' = (?brk' - 1) div BS * BS"
  have uhe: "unat ?he = (unat ?brk - 1) div 32 * 32"
    using hend_unat [of ?brk] okD(8,9) by (simp add: BS_def)
  have uhe': "unat he' = unat ?he + unat chunk"
  proof -
    have "unat he' = (unat ?brk' - 1) div 32 * 32"
      unfolding he'_def BS_def using ubrk' okD(9) by (intro hend_unat) simp
    also have "\<dots> = (unat ?brk - 1) div 32 * 32 + unat chunk"
      unfolding ubrk' using ch32 okD(9) by (intro hend_add) simp_all
    finally show ?thesis using uhe by simp
  qed
  have he'eq: "he' = ?he + chunk"
  proof (rule word_eq_of_unat)
    have "unat ?he + unat chunk \<le> unat (ds_limit ?d)" using grow okD(9) by simp
    then have "unat (?he + chunk) = unat ?he + unat chunk" by (rule unat_add_bounded)
    with uhe' show "unat he' = unat (?he + chunk)" by simp
  qed
  define T' where "T' = T + (he' - ?he)"
  have T'eq: "T' = T + chunk" by (simp add: T'_def he'eq)
  have uT': "unat T' = unat T + unat chunk"
  proof -
    have "unat T + unat chunk \<le> unat (ds_limit ?d)"
      using Tle lle grow okD(9) by simp
    then show ?thesis unfolding T'eq by (rule unat_add_bounded)
  qed
  have st: "he' - (T + (he' - ?he)) = start"
    by (simp add: start_def)
  let ?m' = "?m(start := PACK T' FREE, he' - 8 := PACK T' FREE, he' := PACK 0 ALLOC)"
  let ?s' = "s\<lparr>dseg := ?d1, ds_heap_brk := ?brk', heap_end := he', mem := ?m',
               next_block := start\<rparr>"
  have ex: "expand_heap req s = Inr (start, ?s')"
    using expand_heap_eq [OF Teq c(1) chunk_def [symmetric] sb1 sb2 he'_def [symmetric]]
    by (simp add: st T'_def)
  have uhe'8: "unat (he' - 8) = unat ?he + unat chunk - 8"
    using uhe' ch(2) by (simp add: unat_sub_bounded)
  have d1: "start \<noteq> he' - 8" using ustart uhe'8 ch(2) by (intro neq_of_unat) simp
  have d2: "start \<noteq> he'" using ustart uhe' ch(2) by (intro neq_of_unat) simp
  have d3: "he' - 8 \<noteq> he'" using uhe'8 uhe' ch(2) by (intro neq_of_unat) simp
  have T'32: "32 dvd unat T'" "32 \<le> unat T'" using uT' T32 ch32 ch(2) by simp_all
  have send: "start + T' = he'"
    by (simp add: start_def T'eq he'eq)
  have bst: "block_ok ?m' start \<and> GET_SIZE ?m' start = T' \<and> GET_STATUS ?m' start = FREE"
    using d1 d2 d3 T'32 by (intro block_okI) (auto simp: GET_def send)
  have tst: "tiles ?m' start [start] he'"
    using bst send ustart uT' uhe' Tle lle by simp
  define pre where "pre = (if GET_STATUS ?m l = FREE then xs else bs)"
  have tpre: "tiles ?m ?hs pre start"
  proof (cases "GET_STATUS ?m l = FREE")
    case True
    then have "start = l" using lend [symmetric] by (simp add: start_def T_def)
    with True tx show ?thesis by (simp add: pre_def)
  next
    case False
    then have "start = ?he" by (simp add: start_def T_def)
    with False okD(5) show ?thesis by (simp add: pre_def)
  qed
  have "agree ?m ?m' ?hs start"
    using ustart uhe' uhe'8 ch(2) by (intro agree_upd agree_refl; arith)
  with tpre have "tiles ?m' ?hs pre start" by (rule tiles_agree)
  with tst have t': "tiles ?m' ?hs (pre @ [start]) he'"
    by (auto simp: tiles_append)
  have "heap_ok ?s' (pre @ [start])"
    unfolding heap_ok_def
    using okD t' uhe' ubrk' grow he'_def by (simp add: GET_def)
  moreover have "unat req \<le> unat (GET_SIZE (mem ?s') start)"
    using bst uT' ch(3) by simp
  ultimately show ?thesis
    using ex by (intro exI [of _ start] exI [of _ ?s'] exI [of _ "pre @ [start]"]) simp
qed


subsection \<open>\<open>mm_malloc\<close> on a well-formed heap\<close>

lemma heap_ok_next_block [simp]: "heap_ok (s\<lparr>next_block := c\<rparr>) bs = heap_ok s bs"
  by (simp add: heap_ok_def)

lemma fits_next_block [simp]: "fits (s\<lparr>next_block := c\<rparr>) sz b = fits s sz b"
  by (simp add: fits_def)

text \<open>\<open>round_up u n\<close> is \<open>n\<close> rounded up to the next multiple of \<open>u\<close>.\<close>

definition round_up :: "nat \<Rightarrow> nat \<Rightarrow> nat" where
  "round_up u n = (n + u - 1) div u * u"

lemma place_heap_ok:
  assumes ok: "heap_ok s bs" and b: "b \<in> set bs"
    and r32: "32 dvd unat req" "32 \<le> unat req"
    and fit: "unat req \<le> unat (GET_SIZE (mem s) b)"
  shows "\<exists>p s' bs'. place req b s = (p, s') \<and> heap_ok s' bs' \<and> p - TYPE_SIZE \<in> set bs'
      \<and> GET (mem s') (p - TYPE_SIZE) = PACK req ALLOC
      \<and> 8 dvd unat p \<and> unat (heap_start s') \<le> unat p \<and> unat p < unat (heap_end s')
      \<and> set bs \<subseteq> set bs' \<and> next_block s' = next_block s
      \<and> get_free_block s' = get_free_block s"
proof -
  note okD = heap_okD [OF ok]
  from place_tiles [OF okD(5) b r32 fit] obtain m' bs' where
    p: "place req b s = (b + TYPE_SIZE, s\<lparr>mem := m'\<rparr>)"
    and t: "tiles m' (heap_start s) bs' (heap_end s)"
    and b': "b \<in> set bs'" and sub: "set bs \<subseteq> set bs'" and g: "GET m' b = PACK req ALLOC"
    and out: "\<forall>a. unat a < unat b \<or> unat b + unat (GET_SIZE (mem s) b) \<le> unat a
          \<longrightarrow> m' a = mem s a"
    by blast
  from tiles_mem [OF okD(5) b] have bm: "block_ok (mem s) b" "unat (heap_start s) \<le> unat b"
    "unat b + unat (GET_SIZE (mem s) b) \<le> unat (heap_end s)"
    by simp_all
  then have S32: "32 \<le> unat (GET_SIZE (mem s) b)" by (simp add: block_ok_def)
  from out bm(3) have "m' (heap_end s) = mem s (heap_end s)" by simp
  with okD(6) have sent: "GET m' (heap_end s) = PACK 0 ALLOC" by (simp add: GET_def)
  have ok': "heap_ok (s\<lparr>mem := m'\<rparr>) bs'"
    unfolding heap_ok_def using okD t b' sent by auto
  have "unat b + unat (8 :: 64 word) \<le> unat (heap_end s)" using bm(3) S32 by simp
  then have up: "unat (b + 8) = unat b + 8"
    using unat_add_bounded [of b 8 "heap_end s"] by simp
  from tiles_aligned [OF okD(5) okD(3)] b have "32 dvd unat b" by simp
  then have "8 dvd unat b" by (auto elim: dvd_trans [rotated])
  with up have al: "8 dvd unat (b + 8)" by simp
  show ?thesis
    using p ok' b' g al up bm S32 sub
    by (intro exI [of _ "b + TYPE_SIZE"] exI [of _ "s\<lparr>mem := m'\<rparr>"] exI [of _ bs'])
       (simp add: TYPE_SIZE_def)
qed

lemma req_size:
  assumes "unat sz < 2 ^ 52"
  shows "\<exists>req. ceil_to (unat BS) (sz + 2 * TYPE_SIZE) = Some req
      \<and> req = of_nat (round_up 32 (unat sz + 16))
      \<and> unat req = round_up 32 (unat sz + 16)
      \<and> 32 dvd unat req \<and> 32 \<le> unat req \<and> unat req < 2 ^ 53 \<and> unat req \<le> unat sz + 47"
proof -
  have n: "unat sz < 4503599627370496" using assms by simp
  then have "unat sz + unat (16 :: 64 word) \<le> unat (4503599627370512 :: 64 word)" by simp
  then have u: "unat (sz + 16) = unat sz + 16"
    using unat_add_bounded [of sz 16 4503599627370512] by simp
  define R where "R = round_up 32 (unat sz + 16)"
  define req :: "64 word" where "req = of_nat R"
  have le: "R \<le> unat sz + 47" by (simp add: R_def round_up_def)
  with n have "R < 2 ^ 64" by simp
  then have ur: "unat req = R"
    unfolding req_def by (subst unat_of_nat) simp
  have d: "32 dvd R" by (simp add: R_def round_up_def)
  have "0 < (unat sz + 47) div 32" by (simp add: div_greater_zero_iff)
  then have ge: "32 \<le> R" by (simp add: R_def round_up_def)
  have "unat (sz + 16) < 2 ^ 53" using u n by simp
  then have "ceil_to (unat BS) (sz + 2 * TYPE_SIZE) = Some req"
    unfolding req_def R_def round_up_def using u
    by (simp add: ceil_to_small BS_def TYPE_SIZE_def)
  with ur le d ge n show ?thesis
    unfolding req_def R_def by simp
qed


text \<open>
  C8, as the code has it.  Let the heap be well formed, with the next-fit cursor at a
  block if the policy is next fit, let the requested size be below \<open>2 ^ 52\<close>, and, in
  case no free block is large enough, let the data segment have room for the request and
  65583 bytes more.  Then \<open>mm_malloc\<close> returns a pointer \<open>p\<close>; the word before \<open>p\<close> is the
  header of a block of the heap, marked allocated with the size \<open>sz + 16\<close> rounded up to
  the next multiple of 32; \<open>p\<close> is a multiple of 8 and lies between \<open>heap_start\<close> and
  \<open>heap_end\<close>; the heap is well formed again and a cursor that was at a block is at a
  block.
\<close>

theorem mm_malloc_block:
  assumes ok: "heap_ok s bs" and pol: "get_free_block s = Some ap"
    and cur: "ap = ap_NextFit \<longrightarrow> next_block s \<in> set bs"
    and small: "unat sz < 2 ^ 52"
    and room: "(\<forall>b\<in>set bs. \<not> fits s (of_nat (round_up 32 (unat sz + 16))) b) \<longrightarrow>
        unat (ds_break (dseg s)) + unat sz + 65583 \<le> unat (ds_limit (dseg s))"
  shows "\<exists>p s' bs'. mm_malloc sz s = Some (Inr (p, s')) \<and> heap_ok s' bs'
      \<and> p - TYPE_SIZE \<in> set bs'
      \<and> GET (mem s') (p - TYPE_SIZE) = PACK (of_nat (round_up 32 (unat sz + 16))) ALLOC
      \<and> 8 dvd unat p \<and> unat (heap_start s') \<le> unat p \<and> unat p < unat (heap_end s')
      \<and> get_free_block s' = Some ap
      \<and> (next_block s \<in> set bs \<longrightarrow> next_block s' \<in> set bs')"
proof -
  from req_size [OF small] obtain req where
    c: "ceil_to (unat BS) (sz + 2 * TYPE_SIZE) = Some req"
    and req: "req = of_nat (round_up 32 (unat sz + 16))"
    and r: "32 dvd unat req" "32 \<le> unat req" "unat req < 2 ^ 53" "unat req \<le> unat sz + 47"
    by blast
  have i: "mm_initialized s \<noteq> 0" using ok by (rule heap_okD)
  from call_get_free_block_tiles [OF ok pol cur, of req] obtain b c' where
    l: "call_get_free_block req s = Some (Inr (b, s\<lparr>next_block := c'\<rparr>))"
    and c': "c' = next_block s \<or> c' = b \<and> b \<in> set bs"
    and cases: "(b = NULL \<and> (\<forall>b\<in>set bs. \<not> fits s req b)) \<or> (b \<in> set bs \<and> fits s req b)"
    by blast
  let ?s1 = "s\<lparr>next_block := c'\<rparr>"
  have ok1: "heap_ok ?s1 bs" using ok by simp
  from cases show ?thesis
  proof
    assume a: "b \<in> set bs \<and> fits s req b"
    then have nn: "b \<noteq> NULL" using ok by (auto dest: heap_ok_not_NULL)
    from a have fit: "unat req \<le> unat (GET_SIZE (mem ?s1) b)"
      by (simp add: fits_def word_le_nat_alt)
    from place_heap_ok [OF ok1 _ r(1,2) fit] a obtain p s' bs' where
      p: "place req b ?s1 = (p, s')" "heap_ok s' bs'" "p - TYPE_SIZE \<in> set bs'"
        "GET (mem s') (p - TYPE_SIZE) = PACK req ALLOC"
        "8 dvd unat p" "unat (heap_start s') \<le> unat p" "unat p < unat (heap_end s')"
        "set bs \<subseteq> set bs'" "next_block s' = next_block ?s1"
        "get_free_block s' = get_free_block ?s1"
      by blast
    have m: "mm_malloc sz s = Some (Inr (p, s'))"
      using i c l nn p(1) by (simp add: mm_malloc_def)
    from c' a p(8,9) have "next_block s \<in> set bs \<longrightarrow> next_block s' \<in> set bs'" by auto
    with m p pol req show ?thesis by auto
  next
    assume a: "b = NULL \<and> (\<forall>b\<in>set bs. \<not> fits s req b)"
    with room req r(4) have rm: "unat (ds_break (dseg ?s1)) + unat req + 65536
        \<le> unat (ds_limit (dseg ?s1))"
      by simp
    from a have nofit: "\<forall>b\<in>set bs. \<not> fits ?s1 req b" by simp
    from expand_heap_tiles [OF ok1 r(1,2,3) nofit rm] obtain b2 s2 bs2 where
      e: "expand_heap req ?s1 = Inr (b2, s2)" "heap_ok s2 bs2" "b2 \<in> set bs2"
        "unat req \<le> unat (GET_SIZE (mem s2) b2)" "get_free_block s2 = get_free_block ?s1"
        "next_block s2 = b2"
      by blast
    from place_heap_ok [OF e(2,3) r(1,2) e(4)] obtain p s' bs' where
      p: "place req b2 s2 = (p, s')" "heap_ok s' bs'" "p - TYPE_SIZE \<in> set bs'"
        "GET (mem s') (p - TYPE_SIZE) = PACK req ALLOC"
        "8 dvd unat p" "unat (heap_start s') \<le> unat p" "unat p < unat (heap_end s')"
        "set bs2 \<subseteq> set bs'" "next_block s' = next_block s2"
        "get_free_block s' = get_free_block s2"
      by blast
    have m: "mm_malloc sz s = Some (Inr (p, s'))"
      using i c l a e(1) p(1) by (simp add: mm_malloc_def)
    from e(3,6) p(8,9) have "next_block s' \<in> set bs'" by auto
    with m p e(5) pol req show ?thesis by auto
  qed
qed

text \<open>
  \<open>init_heap\<close> is the state after \<open>mm_init\<close> under first fit on the empty data segment at
  \<open>0x10000000\<close> with room for 1 MiB: one free block of 65472 bytes.
\<close>

definition init_heap :: mm_state where
  "init_heap =
     \<lparr>mem = (\<lambda>a. 0)
        (0x10000018 := 1, 0x1000FFE0 := 1, 0x10000020 := 65472, 0x1000FFD8 := 65472),
      dseg = \<lparr>ds_start = 0x10000000, ds_break = 0x10010000, ds_limit = 0x10100000,
               ds_pagesize = 4096\<rparr>,
      ds_heap_start = 0x10000000, ds_heap_brk = 0x10010000,
      heap_start = 0x10000020, heap_end = 0x1000FFE0, next_block = 0x10000020,
      PAGESIZE = 4096, get_free_block = Some ap_FirstFit, mm_initialized = 1,
      mm_loglevel = 0\<rparr>"

lemma run_init_heap:
  "run [Init ap_FirstFit] (mm_boot (ds_boot 0x10100000)) = Some (Inr ([], init_heap))"
  by (simp add: init_heap_def run_defs)

lemma heap_ok_init_heap: "heap_ok init_heap [0x10000020]"
  by (simp add: heap_ok_def init_heap_def block_ok_def macro_defs)

theorem mm_malloc_block_witness:
  "heap_ok init_heap [0x10000020] \<and> get_free_block init_heap = Some ap_FirstFit
   \<and> unat (100 :: 64 word) < 2 ^ 52
   \<and> unat (ds_break (dseg init_heap)) + unat (100 :: 64 word) + 65583
       \<le> unat (ds_limit (dseg init_heap))
   \<and> round_up 32 (unat (100 :: 64 word) + 16) = 128
   \<and> (\<exists>p s' bs'. mm_malloc 100 init_heap = Some (Inr (p, s')) \<and> heap_ok s' bs'
        \<and> p - TYPE_SIZE \<in> set bs'
        \<and> GET (mem s') (p - TYPE_SIZE) = PACK 128 ALLOC
        \<and> 8 dvd unat p \<and> unat (heap_start s') \<le> unat p \<and> unat p < unat (heap_end s'))
   \<and> (case mm_malloc 100 init_heap of
         Some (Inr (p, s')) \<Rightarrow> p = 0x10000028 \<and> GET (mem s') 0x10000020 = PACK 128 ALLOC
       | _ \<Rightarrow> False)"
proof -
  have p: "get_free_block init_heap = Some ap_FirstFit"
    by (simp add: init_heap_def)
  have c: "ap_FirstFit = ap_NextFit \<longrightarrow> next_block init_heap \<in> set [0x10000020]"
    by simp
  have s: "unat (100 :: 64 word) < 2 ^ 52"
    by simp
  have r: "unat (ds_break (dseg init_heap)) + unat (100 :: 64 word) + 65583
       \<le> unat (ds_limit (dseg init_heap))"
    by (simp add: init_heap_def)
  have u: "round_up 32 (unat (100 :: 64 word) + 16) = 128"
    by (simp add: round_up_def)
  have e: "(case mm_malloc 100 init_heap of
         Some (Inr (p, s')) \<Rightarrow> p = 0x10000028 \<and> GET (mem s') 0x10000020 = PACK 128 ALLOC
       | _ \<Rightarrow> False)"
    by (simp add: init_heap_def run_defs)
  from mm_malloc_block [OF heap_ok_init_heap p c s] r u
  have "\<exists>p s' bs'. mm_malloc 100 init_heap = Some (Inr (p, s')) \<and> heap_ok s' bs'
        \<and> p - TYPE_SIZE \<in> set bs'
        \<and> GET (mem s') (p - TYPE_SIZE) = PACK 128 ALLOC
        \<and> 8 dvd unat p \<and> unat (heap_start s') \<le> unat p \<and> unat p < unat (heap_end s')"
    by simp blast
  with heap_ok_init_heap p s r u e show ?thesis
    by blast
qed

text \<open>
  The claim C8 as stated fails for sizes near the top of \<open>size_t\<close>: \<open>size + 16\<close> wraps
  around.  For a request of \<open>2 ^ 64 - 16\<close> bytes the required block size is computed as
  0; the first free block is chosen, and the pointer returned is the word after a header
  that still says free, 65472 bytes.
\<close>

theorem mm_malloc_size_wraps:
  "unat (- 16 :: 64 word) + 16 = 2 ^ 64
   \<and> ceil_to (unat BS) (- 16 + 2 * TYPE_SIZE) = Some 0
   \<and> (case mm_malloc (- 16) init_heap of
         Some (Inr (p, s')) \<Rightarrow>
           p = 0x10000028 \<and> GET (mem s') (p - TYPE_SIZE) = PACK 65472 FREE
           \<and> GET (mem s') (p - TYPE_SIZE) \<noteq> PACK (of_nat (round_up 32 (unat (- 16 :: 64 word) + 16))) ALLOC
       | _ \<Rightarrow> False)"
  by (simp add: init_heap_def round_up_def run_defs)

section \<open>Releasing a block\<close>

lemma heap_ok_mem:
  assumes "heap_ok s bs" and "tiles m' (heap_start s) bs' (heap_end s)" and "bs' \<noteq> []"
    and "m' (heap_end s) = mem s (heap_end s)"
  shows "heap_ok (s\<lparr>mem := m'\<rparr>) bs'"
  unfolding heap_ok_def using heap_okD [OF assms(1)] assms(2-) by (simp add: GET_def)

lemma free_mark_eq:
  assumes "32 dvd unat (GET_SIZE (mem s) b)"
  shows "free_mark b s =
     s\<lparr>mem := (mem s)(b := PACK (GET_SIZE (mem s) b) FREE,
                        b + GET_SIZE (mem s) b - 8 := PACK (GET_SIZE (mem s) b) FREE)\<rparr>"
  using tag_simps(1) [OF assms]
  by (simp add: free_mark_def put_def Let_def PUT_def END_def GET_SIZE_def GET_def
      PREV_PTR_def TYPE_SIZE_def)

lemma free_mark_ok:
  assumes ok: "heap_ok s (xs @ b # ys)"
  shows "\<exists>m'. free_mark b s = s\<lparr>mem := m'\<rparr> \<and> heap_ok (s\<lparr>mem := m'\<rparr>) (xs @ b # ys)
      \<and> GET_STATUS m' b = FREE \<and> GET_SIZE m' b = GET_SIZE (mem s) b
      \<and> (\<forall>a. unat a < unat b \<or> unat b + unat (GET_SIZE (mem s) b) \<le> unat a
            \<longrightarrow> m' a = mem s a)"
proof -
  let ?m = "mem s" and ?hs = "heap_start s" and ?he = "heap_end s"
  let ?S = "GET_SIZE ?m b"
  note okD = heap_okD [OF ok]
  from okD(5) obtain q where "tiles ?m ?hs xs q" "tiles ?m q (b # ys) ?he"
    by (auto simp: tiles_append)
  then have tx: "tiles ?m ?hs xs b" and tb: "tiles ?m b (b # ys) ?he" by simp_all
  from tb have bok: "block_ok ?m b" and ble: "unat b + unat ?S \<le> unat ?he"
    and ty: "tiles ?m (b + ?S) ys ?he"
    by simp_all
  from bok have S32: "32 dvd unat ?S" "32 \<le> unat ?S" by (simp_all add: block_ok_def)
  have uS: "unat (b + ?S) = unat b + unat ?S" using ble by (rule unat_add_bounded)
  have uS8: "unat (b + ?S - 8) = unat b + unat ?S - 8"
    using uS S32(2) by (simp add: unat_sub_bounded)
  let ?m' = "?m(b := PACK ?S FREE, b + ?S - 8 := PACK ?S FREE)"
  have e: "free_mark b s = s\<lparr>mem := ?m'\<rparr>" using S32(1) by (rule free_mark_eq)
  have n: "b + ?S - 8 \<noteq> b" using uS8 S32(2) by (intro neq_of_unat) simp
  have b': "block_ok ?m' b \<and> GET_SIZE ?m' b = ?S \<and> GET_STATUS ?m' b = FREE"
    using n S32 by (intro block_okI) (simp_all add: GET_def)
  have ax: "agree ?m ?m' ?hs b"
    using uS8 S32(2) by (intro agree_upd agree_refl; arith)
  have ay: "agree ?m ?m' (b + ?S) ?he"
    using uS uS8 S32(2) by (intro agree_upd agree_refl; arith)
  have out: "\<forall>a. unat a < unat b \<or> unat b + unat ?S \<le> unat a \<longrightarrow> ?m' a = ?m a"
  proof (intro allI impI)
    fix a :: addr assume "unat a < unat b \<or> unat b + unat ?S \<le> unat a"
    with uS8 S32(2) have "a \<noteq> b" and "a \<noteq> b + ?S - 8"
      by (auto intro!: neq_of_unat)
    then show "?m' a = ?m a" by simp
  qed
  have "tiles ?m' b (b # ys) ?he"
    using b' ble tiles_agree [OF ty ay] by simp
  with tiles_agree [OF tx ax] have t': "tiles ?m' ?hs (xs @ b # ys) ?he"
    by (auto simp: tiles_append)
  from out ble have "?m' ?he = ?m ?he" by simp
  with ok t' have "heap_ok (s\<lparr>mem := ?m'\<rparr>) (xs @ b # ys)"
    by (intro heap_ok_mem) simp_all
  with e b' out show ?thesis by blast
qed


lemma coalesce_prev_eq:
  assumes "b \<noteq> heap_start s" and "GET_STATUS (mem s) (PREV_PTR b) = FREE"
    and "START (mem s) (PREV_PTR b) = a"
    and "GET_SIZE (mem s) a + GET_SIZE (mem s) b = sz" and "32 dvd unat sz"
  shows "coalesce_prev b s =
     (a, s\<lparr>mem := (mem s)(a := PACK sz FREE, a + sz - 8 := PACK sz FREE), next_block := a\<rparr>)"
  using assms(1-4) tag_simps(1) [OF assms(5)]
  by (simp add: coalesce_prev_def put_def Let_def PUT_def END_def GET_SIZE_def GET_def
      PREV_PTR_def TYPE_SIZE_def)

lemma coalesce_prev_ok:
  assumes ok: "heap_ok s (xs @ b # ys)" and fr: "GET_STATUS (mem s) b = FREE"
  shows "\<exists>blk m' nb xs'. coalesce_prev b s = (blk, s\<lparr>mem := m', next_block := nb\<rparr>)
     \<and> heap_ok (s\<lparr>mem := m', next_block := nb\<rparr>) (xs' @ blk # ys)
     \<and> GET_STATUS m' blk = FREE
     \<and> blk + GET_SIZE m' blk = b + GET_SIZE (mem s) b
     \<and> (\<forall>a. unat b + unat (GET_SIZE (mem s) b) \<le> unat a \<longrightarrow> m' a = mem s a)
     \<and> (if xs \<noteq> [] \<and> GET_STATUS (mem s) (last xs) = FREE
         then blk = last xs \<and> xs' = butlast xs \<and> nb = blk
         else blk = b \<and> xs' = xs \<and> nb = next_block s \<and> m' = mem s)"
proof -
  let ?m = "mem s" and ?hs = "heap_start s" and ?he = "heap_end s"
  let ?S = "GET_SIZE ?m b"
  note okD = heap_okD [OF ok]
  from okD(5) obtain q where "tiles ?m ?hs xs q" "tiles ?m q (b # ys) ?he"
    by (auto simp: tiles_append)
  then have tx: "tiles ?m ?hs xs b" and tb: "tiles ?m b (b # ys) ?he" by simp_all
  from tb have bok: "block_ok ?m b" and ble: "unat b + unat ?S \<le> unat ?he"
    and ty: "tiles ?m (b + ?S) ys ?he"
    by simp_all
  from bok have S32: "32 dvd unat ?S" "32 \<le> unat ?S" by (simp_all add: block_ok_def)
  have uS: "unat (b + ?S) = unat b + unat ?S" using ble by (rule unat_add_bounded)
  have same: "s\<lparr>mem := ?m, next_block := next_block s\<rparr> = s" by simp
  have keep: ?thesis if "coalesce_prev b s = (b, s)"
      and "\<not> (xs \<noteq> [] \<and> GET_STATUS ?m (last xs) = FREE)"
    using that ok fr same
    by - (rule exI [of _ b], rule exI [of _ ?m], rule exI [of _ "next_block s"],
      rule exI [of _ xs], auto)
  show ?thesis
  proof (cases xs rule: rev_cases)
    case Nil
    with tx have "b = ?hs" by simp
    then have "coalesce_prev b s = (b, s)" by (simp add: coalesce_prev_def)
    with Nil show ?thesis by (intro keep) simp_all
  next
    case (snoc xs' a)
    with tx obtain q where "tiles ?m ?hs xs' q" "tiles ?m q [a] b"
      by (auto simp: tiles_append)
    then have tx': "tiles ?m ?hs xs' a" and ta: "tiles ?m a [a] b" by simp_all
    let ?A = "GET_SIZE ?m a"
    from ta have aok: "block_ok ?m a" and ale: "unat a + unat ?A \<le> unat b"
      and aend: "a + ?A = b"
      by simp_all
    from aok have A32: "32 dvd unat ?A" "32 \<le> unat ?A" by (simp_all add: block_ok_def)
    have hsa: "unat ?hs \<le> unat a" using tx' by (rule tiles_le)
    have bne: "b \<noteq> ?hs" using hsa ale A32(2) by (intro neq_of_unat) simp
    have foot: "GET ?m (PREV_PTR b) = GET ?m a"
      using aok aend by (simp add: block_ok_def END_def)
    then have fs: "GET_STATUS ?m (PREV_PTR b) = GET_STATUS ?m a"
      and fz: "GET_SIZE ?m (PREV_PTR b) = ?A"
      by (simp_all add: GET_STATUS_def GET_SIZE_def)
    show ?thesis
    proof (cases "GET_STATUS ?m a = FREE")
      case False
      with fs have "coalesce_prev b s = (b, s)" by (simp add: coalesce_prev_def)
      with False snoc show ?thesis by (intro keep) simp_all
    next
      case True
      have st: "START ?m (PREV_PTR b) = a"
        using fz aend [symmetric] by (simp add: START_def NEXT_PTR_def PREV_PTR_def)
      define sz where "sz = ?A + ?S"
      have usz: "unat sz = unat ?A + unat ?S"
        unfolding sz_def using ale ble by (intro unat_add_bounded [of _ _ ?he]) simp
      have sz32: "32 dvd unat sz" "32 \<le> unat sz" using usz A32 S32 by simp_all
      let ?m' = "?m(a := PACK sz FREE, a + sz - 8 := PACK sz FREE)"
      have e: "coalesce_prev b s = (a, s\<lparr>mem := ?m', next_block := a\<rparr>)"
        using bne fs True st sz_def [symmetric] sz32(1) by (intro coalesce_prev_eq) simp_all
      have send: "a + sz = b + ?S" using aend by (simp add: sz_def add.assoc)
      have ule: "unat a + unat sz \<le> unat ?he" using usz ale ble by simp
      have uend: "unat (a + sz) = unat a + unat sz" using ule by (rule unat_add_bounded)
      have u8: "unat (a + sz - 8) = unat a + unat sz - 8"
        using uend sz32(2) by (simp add: unat_sub_bounded)
      have n: "a + sz - 8 \<noteq> a" using u8 sz32(2) by (intro neq_of_unat) simp
      have a': "block_ok ?m' a \<and> GET_SIZE ?m' a = sz \<and> GET_STATUS ?m' a = FREE"
        using n sz32 by (intro block_okI) (simp_all add: GET_def)
      have ax: "agree ?m ?m' ?hs a"
        using u8 sz32(2) by (intro agree_upd agree_refl; arith)
      have ay: "agree ?m ?m' (b + ?S) ?he"
        using uS u8 usz ale sz32(2) by (intro agree_upd agree_refl; arith)
      have out: "\<forall>x. unat b + unat ?S \<le> unat x \<longrightarrow> ?m' x = ?m x"
      proof (intro allI impI)
        fix x :: addr assume "unat b + unat ?S \<le> unat x"
        with u8 usz ale sz32(2) A32(2) have "x \<noteq> a" and "x \<noteq> a + sz - 8"
          by (auto intro!: neq_of_unat)
        then show "?m' x = ?m x" by simp
      qed
      have "tiles ?m' a (a # ys) ?he"
        using a' ule send tiles_agree [OF ty ay] by simp
      with tiles_agree [OF tx' ax] have t': "tiles ?m' ?hs (xs' @ a # ys) ?he"
        by (auto simp: tiles_append)
      from out ble have "?m' ?he = ?m ?he" by simp
      with ok t' have "heap_ok (s\<lparr>mem := ?m'\<rparr>) (xs' @ a # ys)"
        by (intro heap_ok_mem) simp_all
      then have ok': "heap_ok (s\<lparr>mem := ?m', next_block := a\<rparr>) (xs' @ a # ys)"
        by simp
      show ?thesis
        using e ok' a' send out True snoc
        by - (rule exI [of _ a], rule exI [of _ ?m'], rule exI [of _ a],
          rule exI [of _ xs'], simp)
    qed
  qed
qed


subsection \<open>Shrinking the heap\<close>

lemma unat_round_down_4096:
  fixes w :: "64 word"
  shows "unat (w div 4096 * 4096) = unat w div 4096 * 4096"
proof -
  have b: "unat (w div 4096) = unat w div 4096"
    by (simp add: unat_div)
  have lt: "unat w < 2 ^ 64"
    using unsigned_less [of w] by simp
  have "unat w div 4096 * 4096 \<le> unat w" by simp
  with lt have "unat w div 4096 * 4096 < 2 ^ 64" by linarith
  then have "unat (w div 4096 * 4096) = unat (w div 4096) * 4096"
    using b unat_mult_lem [of "w div 4096" 4096] by simp
  with b show ?thesis by simp
qed

lemma shrink_heap_eq:
  assumes "GET_STATUS (mem s) (PREV_PTR (heap_end s)) = FREE"
    and "GET_SIZE (mem s) (PREV_PTR (heap_end s)) = S"
    and "START (mem s) (PREV_PTR (heap_end s)) = b"
    and "(if INITCHUNK < S then (S - INITCHUNK) div CHUNKSIZE * CHUNKSIZE else 0) = chunk"
  shows "chunk = 0 \<Longrightarrow> shrink_heap s = s\<lparr>next_block := b\<rparr>"
    and "chunk \<noteq> 0 \<Longrightarrow> ds_sbrk (- chunk) (dseg s) = (r1, d1) \<Longrightarrow> ds_sbrk 0 d1 = (brk, d2)
      \<Longrightarrow> (brk - 1) div BS * BS = he \<Longrightarrow>
      shrink_heap s =
        s\<lparr>next_block := b, dseg := d2, ds_heap_brk := brk, heap_end := he,
          mem := (mem s)(b := PACK (he - b) FREE, he - 8 := PACK (he - b) FREE,
                         he := PACK 0 ALLOC)\<rparr>"
  using assms
  by (auto simp: shrink_heap_def Let_def sbrk_def put_def PUT_def PREV_PTR_def TYPE_SIZE_def
      split: if_splits)

lemma shrink_heap_ok:
  assumes ok: "heap_ok s (xs @ [b])" and fr: "GET_STATUS (mem s) b = FREE"
  shows "heap_ok (shrink_heap s) (xs @ [b]) \<and> next_block (shrink_heap s) = b
     \<and> GET_STATUS (mem (shrink_heap s)) b = FREE
     \<and> heap_start (shrink_heap s) = heap_start s
     \<and> get_free_block (shrink_heap s) = get_free_block s
     \<and> ds_limit (dseg (shrink_heap s)) = ds_limit (dseg s)
     \<and> unat (ds_break (dseg (shrink_heap s))) \<le> unat (ds_break (dseg s))"
proof -
  let ?m = "mem s" and ?hs = "heap_start s" and ?he = "heap_end s"
  let ?d = "dseg s"
  let ?brk = "ds_break ?d"
  let ?S = "GET_SIZE ?m b"
  note okD = heap_okD [OF ok]
  from okD(5) obtain q where "tiles ?m ?hs xs q" "tiles ?m q [b] ?he"
    by (auto simp: tiles_append)
  then have tx: "tiles ?m ?hs xs b" and tb: "tiles ?m b [b] ?he" by simp_all
  from tb have bok: "block_ok ?m b" and ble: "unat b + unat ?S \<le> unat ?he"
    and bend: "b + ?S = ?he"
    by simp_all
  from bok have S32: "32 dvd unat ?S" "32 \<le> unat ?S" by (simp_all add: block_ok_def)
  have uS: "unat (b + ?S) = unat b + unat ?S" using ble by (rule unat_add_bounded)
  with bend have uhe: "unat ?he = unat b + unat ?S" by simp
  have hsb: "unat ?hs \<le> unat b" using tx by (rule tiles_le)
  have foot: "GET ?m (PREV_PTR ?he) = GET ?m b"
    using bok bend by (simp add: block_ok_def END_def)
  then have fs: "GET_STATUS ?m (PREV_PTR ?he) = FREE" and fz: "GET_SIZE ?m (PREV_PTR ?he) = ?S"
    using fr by (simp_all add: GET_STATUS_def GET_SIZE_def)
  have st: "START ?m (PREV_PTR ?he) = b"
    using fz bend [symmetric] by (simp add: START_def NEXT_PTR_def PREV_PTR_def)
  define chunk where
    "chunk = (if INITCHUNK < ?S then (?S - INITCHUNK) div CHUNKSIZE * CHUNKSIZE else 0)"
  note eqs = shrink_heap_eq [OF fs fz st chunk_def [symmetric]]
  show ?thesis
  proof (cases "chunk = 0")
    case True
    with eqs(1) have "shrink_heap s = s\<lparr>next_block := b\<rparr>" by simp
    with ok fr show ?thesis by simp
  next
    case False
    then have big: "INITCHUNK < ?S" by (auto simp: chunk_def split: if_splits)
    then have ubig: "65536 < unat ?S"
      by (simp add: INITCHUNK_def CHUNKSIZE_def word_less_nat_alt)
    then have ud: "unat (?S - 65536) = unat ?S - 65536"
      using unat_sub_bounded [of 65536 ?S] by simp
    have uch: "unat chunk = (unat ?S - 65536) div 4096 * 4096"
      using big ud by (simp add: chunk_def INITCHUNK_def CHUNKSIZE_def unat_round_down_4096)
    then have chle: "unat chunk \<le> unat ?S - 65536" by simp
    have "4096 dvd unat chunk" using uch by simp
    then have ch32: "32 dvd unat chunk" by (auto elim: dvd_trans [rotated])
    have chpos: "0 < unat chunk" using False by (simp add: unat_gt_0)
    have sh: "unat (ds_start ?d) + unat chunk \<le> unat ?brk"
      using okD(7,9) hsb uhe chle ubig by simp
    let ?brk' = "?brk - chunk"
    let ?d1 = "?d\<lparr>ds_break := ?brk'\<rparr>"
    have ubrk': "unat ?brk' = unat ?brk - unat chunk"
      using sh by (intro unat_sub_bounded) simp
    have sb1: "ds_sbrk (- chunk) ?d = (?brk', ?d1)"
      using sh okD(10,11) by (rule ds_sbrk_shrink)
    have sb2: "ds_sbrk 0 ?d1 = (?brk', ?d1)"
      using ds_sbrk_zero [of ?d1] sh ubrk' okD(10) by simp
    define he' where "he' = (?brk' - 1) div BS * BS"
    have uhe0: "unat ?he = (unat ?brk - 1) div 32 * 32"
      using hend_unat [of ?brk] okD(8,9) by (simp add: BS_def)
    have brk1: "1 \<le> unat ?brk - unat chunk"
      using okD(9) uhe chle ubig by simp
    have uhe': "unat he' = unat ?he - unat chunk"
    proof -
      have "unat he' = (unat ?brk' - 1) div 32 * 32"
        unfolding he'_def BS_def using ubrk' brk1 by (intro hend_unat) simp
      moreover have "(unat ?brk - unat chunk + unat chunk - 1) div 32 * 32
          = (unat ?brk - unat chunk - 1) div 32 * 32 + unat chunk"
        using ch32 brk1 by (rule hend_add)
      moreover have "unat ?brk - unat chunk + unat chunk = unat ?brk" using sh by simp
      ultimately show ?thesis using uhe0 ubrk' by simp
    qed
    define S' where "S' = he' - b"
    have uS': "unat S' = unat ?S - unat chunk"
      unfolding S'_def using uhe' uhe chle ubig by (simp add: unat_sub_bounded)
    have S'32: "32 dvd unat S'" "32 \<le> unat S'"
      using uS' S32 ch32 chle ubig by (simp_all add: dvd_diff_nat)
    have he'b: "b + S' = he'" by (simp add: S'_def)
    have ule: "unat b + unat S' \<le> unat he'" using uS' uhe' uhe chle by simp
    let ?m' = "?m(b := PACK S' FREE, he' - 8 := PACK S' FREE, he' := PACK 0 ALLOC)"
    let ?s' = "s\<lparr>next_block := b, dseg := ?d1, ds_heap_brk := ?brk', heap_end := he',
                 mem := ?m'\<rparr>"
    have e: "shrink_heap s = ?s'"
      using eqs(2) [OF False sb1 sb2 he'_def [symmetric]] by (simp add: S'_def)
    have u8: "unat (he' - 8) = unat he' - 8"
      using ule S'32(2) by (simp add: unat_sub_bounded)
    have d1: "b \<noteq> he' - 8" using u8 ule S'32(2) by (intro neq_of_unat) simp
    have d2: "b \<noteq> he'" using ule S'32(2) by (intro neq_of_unat) simp
    have d3: "he' - 8 \<noteq> he'" using u8 ule S'32(2) by (intro neq_of_unat) simp
    have b': "block_ok ?m' b \<and> GET_SIZE ?m' b = S' \<and> GET_STATUS ?m' b = FREE"
      using d1 d2 d3 S'32 by (intro block_okI) (auto simp: GET_def he'b)
    have tb': "tiles ?m' b [b] he'"
      using b' ule he'b by simp
    have "agree ?m ?m' ?hs b"
      using u8 ule S'32(2) by (intro agree_upd agree_refl; arith)
    with tx have "tiles ?m' ?hs xs b" by (rule tiles_agree)
    with tb' have t': "tiles ?m' ?hs (xs @ [b]) he'"
      by (auto simp: tiles_append)
    have a1: "unat he' < unat ?brk'" using uhe' ubrk' okD(9) chle uhe ubig by arith
    have a2: "unat ?brk' \<le> unat (ds_limit ?d)" using ubrk' okD(10) by arith
    have "heap_ok ?s' (xs @ [b])"
      unfolding heap_ok_def
      using okD(1-4,7,11) t' a1 a2 he'_def [symmetric] by (simp add: GET_def)
    with e b' ubrk' show ?thesis by simp
  qed
qed


subsection \<open>Merging with the succeeding block\<close>

lemma coalesce_next_eq:
  assumes "NEXT_PTR (END (mem s) b) = c" and "c \<noteq> heap_end s"
    and "GET_STATUS (mem s) c = FREE"
    and "GET_SIZE (mem s) c + GET_SIZE (mem s) b = sz" and "32 dvd unat sz"
  shows "coalesce_next b s =
     (let s' = s\<lparr>mem := (mem s)(b := PACK sz FREE, b + sz - 8 := PACK sz FREE),
                 next_block := c\<rparr>
      in if b + sz - 8 = PREV_PTR (heap_end s) then shrink_heap s' else s')"
proof -
  from assms(5) have "sz \<noteq> 8" by auto
  with assms(1-4) tag_simps(1) [OF assms(5)] show ?thesis
  by (simp add: coalesce_next_def put_def Let_def PUT_def END_def GET_SIZE_def GET_def
      PREV_PTR_def TYPE_SIZE_def)
qed

lemma coalesce_next_ok:
  assumes ok: "heap_ok s (xs @ b # ys)" and fr: "GET_STATUS (mem s) b = FREE"
  shows "\<exists>ys'. heap_ok (coalesce_next b s) (xs @ b # ys')
     \<and> GET_STATUS (mem (coalesce_next b s)) b = FREE
     \<and> get_free_block (coalesce_next b s) = get_free_block s
     \<and> ds_limit (dseg (coalesce_next b s)) = ds_limit (dseg s)
     \<and> unat (ds_break (dseg (coalesce_next b s))) \<le> unat (ds_break (dseg s))
     \<and> (if ys \<noteq> [] \<and> GET_STATUS (mem s) (hd ys) = FREE
         then ys' = tl ys \<and> next_block (coalesce_next b s) = (if tl ys = [] then b else hd ys)
         else ys' = ys \<and> coalesce_next b s = s)"
proof -
  let ?m = "mem s" and ?hs = "heap_start s" and ?he = "heap_end s"
  let ?S = "GET_SIZE ?m b"
  note okD = heap_okD [OF ok]
  from okD(5) obtain q where "tiles ?m ?hs xs q" "tiles ?m q (b # ys) ?he"
    by (auto simp: tiles_append)
  then have tx: "tiles ?m ?hs xs b" and tb: "tiles ?m b (b # ys) ?he" by simp_all
  from tb have bok: "block_ok ?m b" and ble: "unat b + unat ?S \<le> unat ?he"
    and ty: "tiles ?m (b + ?S) ys ?he"
    by simp_all
  from bok have S32: "32 dvd unat ?S" "32 \<le> unat ?S" by (simp_all add: block_ok_def)
  have uS: "unat (b + ?S) = unat b + unat ?S" using ble by (rule unat_add_bounded)
  have nx: "NEXT_PTR (END ?m b) = b + ?S"
    by (simp add: NEXT_PTR_def END_def PREV_PTR_def TYPE_SIZE_def)
  have keep: ?thesis if "coalesce_next b s = s"
      and "\<not> (ys \<noteq> [] \<and> GET_STATUS ?m (hd ys) = FREE)"
    using that ok fr by - (rule exI [of _ ys], auto)
  show ?thesis
  proof (cases ys)
    case Nil
    with ty have "b + ?S = ?he" by simp
    with nx have "coalesce_next b s = s" by (simp add: coalesce_next_def)
    with Nil show ?thesis by (intro keep) simp_all
  next
    case (Cons c ys')
    with ty have c: "b + ?S = c" and tc: "tiles ?m c (c # ys') ?he" by simp_all
    let ?C = "GET_SIZE ?m c"
    from tc have cok: "block_ok ?m c" and cle: "unat c + unat ?C \<le> unat ?he"
      and ty': "tiles ?m (c + ?C) ys' ?he"
      by simp_all
    from cok have C32: "32 dvd unat ?C" "32 \<le> unat ?C" by (simp_all add: block_ok_def)
    have uc: "unat c = unat b + unat ?S" using uS c by simp
    have cne: "c \<noteq> ?he" using cle C32(2) by (intro neq_of_unat) simp
    show ?thesis
    proof (cases "GET_STATUS ?m c = FREE")
      case False
      with nx c have "coalesce_next b s = s" by (simp add: coalesce_next_def)
      with False Cons show ?thesis by (intro keep) simp_all
    next
      case True
      define sz where "sz = ?C + ?S"
      have usz: "unat sz = unat ?C + unat ?S"
        unfolding sz_def using cle uc by (intro unat_add_bounded [of _ _ ?he]) simp
      have sz32: "32 dvd unat sz" "32 \<le> unat sz" using usz C32 S32 by simp_all
      let ?m' = "?m(b := PACK sz FREE, b + sz - 8 := PACK sz FREE)"
      let ?s' = "s\<lparr>mem := ?m', next_block := c\<rparr>"
      have e: "coalesce_next b s =
          (if b + sz - 8 = PREV_PTR ?he then shrink_heap ?s' else ?s')"
        using coalesce_next_eq [of s b c sz] nx c cne True sz_def sz32(1)
        by (simp add: Let_def)
      have send: "b + sz = c + ?C" using c by (simp add: sz_def add.commute add.left_commute)
      have ule: "unat b + unat sz \<le> unat ?he" using usz uc cle by simp
      have uend: "unat (b + sz) = unat b + unat sz" using ule by (rule unat_add_bounded)
      have u8: "unat (b + sz - 8) = unat b + unat sz - 8"
        using uend sz32(2) by (simp add: unat_sub_bounded)
      have n: "b + sz - 8 \<noteq> b" using u8 sz32(2) by (intro neq_of_unat) simp
      have b': "block_ok ?m' b \<and> GET_SIZE ?m' b = sz \<and> GET_STATUS ?m' b = FREE"
        using n sz32 by (intro block_okI) (simp_all add: GET_def)
      have ax: "agree ?m ?m' ?hs b"
        using u8 sz32(2) by (intro agree_upd agree_refl; arith)
      have ay: "agree ?m ?m' (c + ?C) ?he"
        using uend u8 send sz32(2) cle by (intro agree_upd agree_refl; arith)
      have "tiles ?m' b (b # ys') ?he"
        using b' ule send tiles_agree [OF ty' ay] by simp
      with tiles_agree [OF tx ax] have t': "tiles ?m' ?hs (xs @ b # ys') ?he"
        by (auto simp: tiles_append)
      have "?he \<noteq> b" "?he \<noteq> b + sz - 8"
        using u8 ule sz32(2) by (auto intro!: neq_of_unat)
      then have "?m' ?he = ?m ?he" by simp
      with ok t' have "heap_ok (s\<lparr>mem := ?m'\<rparr>) (xs @ b # ys')"
        by (intro heap_ok_mem) simp_all
      then have ok': "heap_ok ?s' (xs @ b # ys')" by simp
      show ?thesis
      proof (cases ys')
        case Nil
        with ty' have "c + ?C = ?he" by simp
        with send have "b + sz - 8 = PREV_PTR ?he" by (simp add: PREV_PTR_def TYPE_SIZE_def)
        with e have e': "coalesce_next b s = shrink_heap ?s'" by simp
        have "heap_ok ?s' (xs @ [b])" using ok' Nil by simp
        moreover have "GET_STATUS (mem ?s') b = FREE" using b' by simp
        ultimately have "heap_ok (shrink_heap ?s') (xs @ [b])
            \<and> next_block (shrink_heap ?s') = b
            \<and> GET_STATUS (mem (shrink_heap ?s')) b = FREE
            \<and> heap_start (shrink_heap ?s') = heap_start ?s'
            \<and> get_free_block (shrink_heap ?s') = get_free_block ?s'
            \<and> ds_limit (dseg (shrink_heap ?s')) = ds_limit (dseg ?s')
            \<and> unat (ds_break (dseg (shrink_heap ?s'))) \<le> unat (ds_break (dseg ?s'))"
          by (rule shrink_heap_ok)
        with e' True Cons Nil show ?thesis by - (rule exI [of _ "[]"], simp)
      next
        case (Cons d zs)
        with ty' have "unat (c + ?C) < unat ?he"
          using tiles_less [of ?m "c + ?C" d zs ?he] by (simp add: word_less_nat_alt)
        with send uend have lt: "unat b + unat sz < unat ?he" by simp
        have up: "unat (?he - 8) = unat ?he - 8"
          using ule sz32(2) by (simp add: unat_sub_bounded)
        have "b + sz - 8 \<noteq> ?he - 8"
          using u8 up lt sz32(2) by (intro neq_of_unat) simp
        then have "b + sz - 8 \<noteq> PREV_PTR ?he" by (simp add: PREV_PTR_def TYPE_SIZE_def)
        with e have e': "coalesce_next b s = ?s'" by simp
        with ok' b' True \<open>ys = c # ys'\<close> Cons show ?thesis
          by - (rule exI [of _ ys'], simp)
      qed
    qed
  qed
qed


subsection \<open>\<open>mm_free\<close> keeps the heap well formed\<close>

lemma tiles_neighbours:
  assumes "tiles m p (xs @ b # ys) e"
  shows "(xs \<noteq> [] \<longrightarrow> unat (last xs) < unat b)
     \<and> (ys \<noteq> [] \<longrightarrow> hd ys = b + GET_SIZE m b)
     \<and> unat (b + GET_SIZE m b) = unat b + unat (GET_SIZE m b)
     \<and> unat b + unat (GET_SIZE m b) \<le> unat e \<and> 32 \<le> unat (GET_SIZE m b)"
proof -
  from assms obtain q where "tiles m p xs q" "tiles m q (b # ys) e"
    by (auto simp: tiles_append)
  then have tx: "tiles m p xs b" and tb: "tiles m b (b # ys) e" by simp_all
  from tb have ble: "unat b + unat (GET_SIZE m b) \<le> unat e"
    and ty: "tiles m (b + GET_SIZE m b) ys e"
    and S32: "32 \<le> unat (GET_SIZE m b)"
    by (simp_all add: block_ok_def)
  have 1: "unat (b + GET_SIZE m b) = unat b + unat (GET_SIZE m b)"
    using ble by (rule unat_add_bounded)
  have 2: "hd ys = b + GET_SIZE m b" if "ys \<noteq> []"
    using that ty by (cases ys) simp_all
  have 3: "unat (last xs) < unat b" if "xs \<noteq> []"
  proof -
    from that obtain xs' a where xs: "xs = xs' @ [a]" by (cases xs rule: rev_cases) auto
    with tx obtain q where "tiles m p xs' q" "tiles m q [a] b"
      by (auto simp: tiles_append)
    then have "tiles m a [a] b" by simp
    then have "32 \<le> unat (GET_SIZE m a)" "unat a + unat (GET_SIZE m a) \<le> unat b"
      by (simp_all add: block_ok_def)
    with xs show ?thesis by simp
  qed
  from 1 2 3 ble S32 show ?thesis by blast
qed

lemma mm_free_ok:
  assumes ok: "heap_ok s (xs @ PREV_PTR ptr # ys)"
  shows "\<exists>s' xs' blk ys'. mm_free ptr s = Inr s' \<and> heap_ok s' (xs' @ blk # ys')
     \<and> GET_STATUS (mem s') blk = FREE
     \<and> get_free_block s' = get_free_block s
     \<and> ds_limit (dseg s') = ds_limit (dseg s)
     \<and> unat (ds_break (dseg s')) \<le> unat (ds_break (dseg s))
     \<and> (if xs \<noteq> [] \<and> GET_STATUS (mem s) (last xs) = FREE
         then blk = last xs \<and> xs' = butlast xs else blk = PREV_PTR ptr \<and> xs' = xs)
     \<and> (if ys \<noteq> [] \<and> GET_STATUS (mem s) (hd ys) = FREE
         then ys' = tl ys \<and> next_block s' = (if tl ys = [] then blk else hd ys)
         else ys' = ys \<and> next_block s' =
           (if xs \<noteq> [] \<and> GET_STATUS (mem s) (last xs) = FREE then blk else next_block s))"
proof -
  define b where "b = PREV_PTR ptr"
  let ?m = "mem s"
  let ?S = "GET_SIZE ?m b"
  let ?P = "xs \<noteq> [] \<and> GET_STATUS ?m (last xs) = FREE"
  let ?N = "ys \<noteq> [] \<and> GET_STATUS ?m (hd ys) = FREE"
  from ok have ok0: "heap_ok s (xs @ b # ys)" by (simp add: b_def)
  note okD = heap_okD [OF ok0]
  note nb = tiles_neighbours [OF okD(5)]
  have "unat (b + 8) = unat b + unat (8 :: addr)"
    using nb by (intro unat_add_bounded [of _ _ "heap_end s"]) simp
  then have "unat (b + 8) \<noteq> unat (0 :: addr)" by simp
  then have "b + 8 \<noteq> 0" by (rule neq_of_unat)
  moreover have "ptr = b + 8" by (simp add: b_def PREV_PTR_def TYPE_SIZE_def)
  ultimately have nn: "ptr \<noteq> NULL" by (simp add: NULL_def)
  from free_mark_ok [OF ok0] obtain m1 where
    e1: "free_mark b s = s\<lparr>mem := m1\<rparr>" and ok1: "heap_ok (s\<lparr>mem := m1\<rparr>) (xs @ b # ys)"
    and fr1: "GET_STATUS m1 b = FREE" and sz1: "GET_SIZE m1 b = ?S"
    and out1: "\<forall>a. unat a < unat b \<or> unat b + unat ?S \<le> unat a \<longrightarrow> m1 a = ?m a"
    by blast
  let ?s1 = "s\<lparr>mem := m1\<rparr>"
  have P1: "(xs \<noteq> [] \<and> GET_STATUS (mem ?s1) (last xs) = FREE) = ?P"
    using nb out1 by (auto simp: GET_STATUS_def GET_def)
  from coalesce_prev_ok [OF ok1] fr1 obtain blk m2 nb2 xs' where
    e2: "coalesce_prev b ?s1 = (blk, ?s1\<lparr>mem := m2, next_block := nb2\<rparr>)"
    and ok2: "heap_ok (?s1\<lparr>mem := m2, next_block := nb2\<rparr>) (xs' @ blk # ys)"
    and fr2: "GET_STATUS m2 blk = FREE"
    and out2: "\<forall>a. unat b + unat (GET_SIZE m1 b) \<le> unat a \<longrightarrow> m2 a = m1 a"
    and c2: "if ?P then blk = last xs \<and> xs' = butlast xs \<and> nb2 = blk
         else blk = b \<and> xs' = xs \<and> nb2 = next_block s \<and> m2 = m1"
    unfolding P1 [symmetric] by (auto simp del: P1)
  let ?s2 = "s\<lparr>mem := m2, next_block := nb2\<rparr>"
  have ok2': "heap_ok ?s2 (xs' @ blk # ys)" using ok2 by simp
  have fr2': "GET_STATUS (mem ?s2) blk = FREE" using fr2 by simp
  have N2: "(ys \<noteq> [] \<and> GET_STATUS (mem ?s2) (hd ys) = FREE) = ?N"
    using nb out1 out2 sz1 by (auto simp: GET_STATUS_def GET_def)
  from coalesce_next_ok [OF ok2' fr2'] obtain ys' where
    ok3: "heap_ok (coalesce_next blk ?s2) (xs' @ blk # ys')"
    and fr3: "GET_STATUS (mem (coalesce_next blk ?s2)) blk = FREE"
    and g3: "get_free_block (coalesce_next blk ?s2) = get_free_block s"
    and d3: "ds_limit (dseg (coalesce_next blk ?s2)) = ds_limit (dseg s)"
      "unat (ds_break (dseg (coalesce_next blk ?s2))) \<le> unat (ds_break (dseg s))"
    and c3: "if ?N then ys' = tl ys
           \<and> next_block (coalesce_next blk ?s2) = (if tl ys = [] then blk else hd ys)
         else ys' = ys \<and> coalesce_next blk ?s2 = ?s2"
    unfolding N2 [symmetric] by (auto simp del: N2)
  have e: "mm_free ptr s = Inr (coalesce_next blk ?s2)"
    using nn okD(1) e1 e2 by (simp add: mm_free_def b_def [symmetric] Let_def)
  show ?thesis
    unfolding b_def [symmetric]
    using e ok3 fr3 g3 d3 c2 c3
    by - (rule exI [of _ "coalesce_next blk ?s2"], rule exI [of _ xs'], rule exI [of _ blk],
      rule exI [of _ ys'], auto split: if_splits)
qed

section \<open>Reallocation\<close>

lemma nf_loop_result:
  assumes "nf_loop s sz p = Some q"
  shows "fits s sz q \<or> q = next_block s"
proof (rule nf_loop.raw_induct
    [where P = "\<lambda>s sz p q. fits s sz q \<or> q = next_block s", rotated, OF assms])
  fix f s sz p q
  assume "\<And>s sz p q. f s sz p = Some q \<Longrightarrow> fits s sz q \<or> q = next_block s"
    and "(if fits s sz p then Some p
          else let p = (if 0 < GET_SIZE (mem s) p then p + GET_SIZE (mem s) p else heap_start s)
               in if p \<noteq> next_block s then f s sz p else Some p) = Some q"
  then show "fits s sz q \<or> q = next_block s"
    by (auto simp: Let_def split: if_splits)
qed

lemma dvd32_iff: "32 dvd unat (x :: 64 word) \<longleftrightarrow> (\<exists>k. x = 32 * k)"
proof
  assume "32 dvd unat x"
  then obtain n where n: "unat x = 32 * n" by (auto elim: dvdE)
  have "x = of_nat (unat x)" by simp
  also have "\<dots> = 32 * of_nat n" unfolding n by simp
  finally show "\<exists>k. x = 32 * k" by blast
next
  assume "\<exists>k. x = 32 * k"
  then obtain k where "x = 32 * k" by blast
  then have "unat x = (32 * unat k) mod 2 ^ 64"
    by (simp add: unat_word_ariths)
  moreover have "(32 :: nat) dvd 2 ^ 64" by simp
  ultimately show "32 dvd unat x" by (simp add: dvd_mod)
qed

lemma dvd32_add:
  "32 dvd unat (a :: 64 word) \<Longrightarrow> 32 dvd unat (b :: 64 word) \<Longrightarrow> 32 dvd unat (a + b)"
  unfolding dvd32_iff by (metis distrib_left)

lemma dvd32_diff:
  "32 dvd unat (a :: 64 word) \<Longrightarrow> 32 dvd unat (b :: 64 word) \<Longrightarrow> 32 dvd unat (a - b)"
  unfolding dvd32_iff by (metis right_diff_distrib)

lemma dvd32_round: "32 dvd unat ((w :: 64 word) div 32 * 32)"
  unfolding dvd32_iff by (metis mult.commute)

lemma place_header:
  assumes r: "32 dvd unat req" "32 \<le> unat req" and nz: "GET_SIZE (mem s) b \<noteq> 8"
  shows "\<exists>s'. place req b s = (b + 8, s') \<and> GET (mem s') b = PACK req ALLOC
     \<and> next_block s' = next_block s"
proof -
  from r have "req \<noteq> 0" "req \<noteq> 8" by auto
  then have "b + req - 8 \<noteq> b" "b + req \<noteq> b" by simp_all
  moreover have "b + req + (GET_SIZE (mem s) b - req) - 8 \<noteq> b" using nz by simp
  ultimately show ?thesis
    by (simp add: place_eq GET_def TYPE_SIZE_def)
qed


lemma last_footer:
  assumes ok: "heap_ok s bs"
  shows "32 dvd unat (GET_SIZE (mem s) (PREV_PTR (heap_end s)))"
proof -
  note okD = heap_okD [OF ok]
  from okD(2) obtain xs l where bs: "bs = xs @ [l]" by (cases bs rule: rev_cases) auto
  with okD(5) obtain q where "tiles (mem s) (heap_start s) xs q" "tiles (mem s) q [l] (heap_end s)"
    by (auto simp: tiles_append)
  then have "tiles (mem s) l [l] (heap_end s)" by simp
  then have l: "block_ok (mem s) l" "l + GET_SIZE (mem s) l = heap_end s" by simp_all
  then have "GET (mem s) (PREV_PTR (heap_end s)) = GET (mem s) l"
    by (simp add: block_ok_def END_def)
  then have "GET_SIZE (mem s) (PREV_PTR (heap_end s)) = GET_SIZE (mem s) l"
    by (simp add: GET_SIZE_def)
  with l(1) show ?thesis by (simp add: block_ok_def)
qed

lemma expand_heap_header:
  assumes ok: "heap_ok s bs" and e: "expand_heap req s = Inr (b, s1)"
  shows "next_block s1 = b \<and> GET_SIZE (mem s1) b \<noteq> 8"
proof -
  define T where "T = (if GET_STATUS (mem s) (PREV_PTR (heap_end s)) = FREE
      then GET_SIZE (mem s) (PREV_PTR (heap_end s)) else 0)"
  have T32: "32 dvd unat T" using last_footer [OF ok] by (simp add: T_def)
  from e obtain c where c: "ceil_to (unat CHUNKSIZE) (req - T + 1) = Some c"
    by (cases "ceil_to (unat CHUNKSIZE) (req - T + 1)")
      (simp_all add: expand_heap_def Let_def T_def)
  define chunk where "chunk = (if c < INITCHUNK then INITCHUNK else c)"
  obtain r1 d1 where s1: "ds_sbrk chunk (dseg s) = (r1, d1)" by (cases "ds_sbrk chunk (dseg s)")
  obtain brk d2 where s2: "ds_sbrk 0 d1 = (brk, d2)" by (cases "ds_sbrk 0 d1")
  define he where "he = (brk - 1) div BS * BS"
  define sz where "sz = T + (he - heap_end s)"
  have "32 dvd unat he" unfolding he_def BS_def by (rule dvd32_round)
  moreover have "32 dvd unat (heap_end s)"
    using heap_okD(8) [OF ok] dvd32_round [of "ds_break (dseg s) - 1"] by (simp add: BS_def)
  ultimately have "32 dvd unat sz"
    unfolding sz_def using T32 by (intro dvd32_add dvd32_diff)
  then have z: "SIZE (PACK sz FREE) = sz" "sz \<noteq> 8" by (auto simp: tag_simps)
  have z0: "SIZE (PACK 0 ALLOC) = 0" by (simp add: tag_simps)
  note eq = expand_heap_eq [OF T_def [symmetric] c chunk_def [symmetric] s1 s2 he_def [symmetric]]
  from e eq have b: "b = he - sz"
    and m: "s1 = s\<lparr>dseg := d2, ds_heap_brk := brk, heap_end := he,
            mem := (mem s)(he - sz := PACK sz FREE, he - 8 := PACK sz FREE, he := PACK 0 ALLOC),
            next_block := he - sz\<rparr>"
    by (auto simp: sz_def)
  show ?thesis
    unfolding b m using z z0 by (simp add: GET_SIZE_def GET_def)
qed

lemma mm_malloc_nf_cursor:
  assumes ok: "heap_ok s bs" and nf: "get_free_block s = Some ap_NextFit"
    and small: "unat sz < 2 ^ 52"
    and ret: "mm_malloc sz s = Some (Inr (p, s'))"
  shows "next_block s' = p - TYPE_SIZE
     \<and> GET (mem s') (p - TYPE_SIZE) = PACK (of_nat (round_up 32 (unat sz + 16))) ALLOC"
proof -
  from req_size [OF small] obtain req where
    c: "ceil_to (unat BS) (sz + 2 * TYPE_SIZE) = Some req"
    and req: "req = of_nat (round_up 32 (unat sz + 16))"
    and r: "32 dvd unat req" "32 \<le> unat req"
    by blast
  have i: "mm_initialized s \<noteq> 0" using ok by (rule heap_okD)
  have expand: ?thesis
    if "heap_ok s0 bs" and "Some (Inr (p, s')) =
        (case expand_heap req s0 of Inl e \<Rightarrow> Some (Inl e)
         | Inr (start_alloc, s) \<Rightarrow> Some (Inr (place req start_alloc s)))" for s0
  proof -
    from that(2) obtain b s1 where e: "expand_heap req s0 = Inr (b, s1)"
      and pl: "place req b s1 = (p, s')"
      by (cases "expand_heap req s0") auto
    from expand_heap_header [OF that(1) e] have "next_block s1 = b" "GET_SIZE (mem s1) b \<noteq> 8"
      by simp_all
    with place_header [OF r, of s1 b] pl show ?thesis
      by (auto simp: req TYPE_SIZE_def)
  qed
  from ret i c nf obtain q where l: "nf_loop s req (next_block s) = Some q"
    by (cases "nf_loop s req (next_block s)")
      (simp_all add: mm_malloc_def call_get_free_block_def nf_get_free_block_def)
  define C where
    "C \<longleftrightarrow> q = next_block s \<and> (GET_STATUS (mem s) q = ALLOC \<or> GET_SIZE (mem s) q < req)"
  let ?s0 = "s\<lparr>next_block := q\<rparr>"
  have g: "call_get_free_block req s = Some (Inr (if C then (NULL, s) else (q, ?s0)))"
    unfolding C_def using i nf l
    by (auto simp: call_get_free_block_def nf_get_free_block_def)
  have mm: "mm_malloc sz s =
      (case call_get_free_block req s of None \<Rightarrow> None | Some (Inl e) \<Rightarrow> Some (Inl e)
       | Some (Inr (start_alloc, s)) \<Rightarrow>
           if start_alloc = NULL
           then case expand_heap req s of Inl e \<Rightarrow> Some (Inl e)
                | Inr (start_alloc, s) \<Rightarrow> Some (Inr (place req start_alloc s))
           else Some (Inr (place req start_alloc s)))"
    using i c by (simp add: mm_malloc_def)
  have ok0: "heap_ok ?s0 bs" using ok by simp
  show ?thesis
  proof (cases C)
    case True
    then have "call_get_free_block req s = Some (Inr (NULL, s))" using g by simp
    with ret mm show ?thesis by (intro expand [OF ok]) simp
  next
    case False
    then have g': "call_get_free_block req s = Some (Inr (q, ?s0))" using g by simp
    show ?thesis
    proof (cases "q = NULL")
      case True
      with ret mm g' show ?thesis by (intro expand [OF ok0]) simp
    next
      case nn: False
      from nf_loop_result [OF l] False have "req \<le> GET_SIZE (mem s) q"
        by (auto simp: fits_def C_def)
      with r(2) have "GET_SIZE (mem ?s0) q \<noteq> 8"
        by (auto simp: word_le_nat_alt)
      from place_header [OF r this] ret mm g' nn show ?thesis
        by (auto simp: req TYPE_SIZE_def)
    qed
  qed
qed


lemma heap_ok_get_free_block [simp]:
  "heap_ok (s\<lparr>get_free_block := g\<rparr>) bs = heap_ok s bs"
  by (simp add: heap_ok_def)

lemma mm_malloc_returns:
  assumes ok: "heap_ok s bs" and pol: "get_free_block s = Some ap"
    and cur: "ap = ap_NextFit \<longrightarrow> next_block s \<in> set bs"
    and small: "unat sz < 2 ^ 52"
    and room: "unat (ds_break (dseg s)) + unat sz + 65583 \<le> unat (ds_limit (dseg s))"
  shows "\<exists>p s'. mm_malloc sz s = Some (Inr (p, s'))"
proof -
  from req_size [OF small] obtain req where
    c: "ceil_to (unat BS) (sz + 2 * TYPE_SIZE) = Some req"
    and r: "32 dvd unat req" "32 \<le> unat req" "unat req < 2 ^ 53" "unat req \<le> unat sz + 47"
    by blast
  have i: "mm_initialized s \<noteq> 0" using ok by (rule heap_okD)
  from call_get_free_block_tiles [OF ok pol cur, of req] obtain b c' where
    l: "call_get_free_block req s = Some (Inr (b, s\<lparr>next_block := c'\<rparr>))"
    and cases: "(b = NULL \<and> (\<forall>b\<in>set bs. \<not> fits s req b)) \<or> (b \<in> set bs \<and> fits s req b)"
    by blast
  let ?s1 = "s\<lparr>next_block := c'\<rparr>"
  have ok1: "heap_ok ?s1 bs" using ok by simp
  from cases show ?thesis
  proof
    assume a: "b \<in> set bs \<and> fits s req b"
    then have nn: "b \<noteq> NULL" using ok by (auto dest: heap_ok_not_NULL)
    obtain p s' where "place req b ?s1 = (p, s')" by (cases "place req b ?s1")
    with i c l nn have "mm_malloc sz s = Some (Inr (p, s'))" by (simp add: mm_malloc_def)
    then show ?thesis by blast
  next
    assume a: "b = NULL \<and> (\<forall>b\<in>set bs. \<not> fits s req b)"
    from room r(4) have rm: "unat (ds_break (dseg ?s1)) + unat req + 65536
        \<le> unat (ds_limit (dseg ?s1))"
      by simp
    from a have nofit: "\<forall>b\<in>set bs. \<not> fits ?s1 req b" by simp
    from expand_heap_tiles [OF ok1 r(1,2,3) nofit rm] obtain b2 s2 where
      e: "expand_heap req ?s1 = Inr (b2, s2)"
      by blast
    obtain p s' where "place req b2 s2 = (p, s')" by (cases "place req b2 s2")
    with i c l a e have "mm_malloc sz s = Some (Inr (p, s'))" by (simp add: mm_malloc_def)
    then show ?thesis by blast
  qed
qed

lemma block_ptr_not_NULL:
  assumes "heap_ok s (xs @ PREV_PTR ptr # ys)"
  shows "ptr \<noteq> NULL"
proof -
  define b where "b = PREV_PTR ptr"
  from assms have "tiles (mem s) (heap_start s) (xs @ b # ys) (heap_end s)"
    unfolding b_def by (rule heap_okD)
  note nb = tiles_neighbours [OF this]
  have "unat (b + 8) = unat b + unat (8 :: addr)"
    using nb by (intro unat_add_bounded [of _ _ "heap_end s"]) simp
  then have "unat (b + 8) \<noteq> unat (0 :: addr)" by simp
  then have "b + 8 \<noteq> 0" by (rule neq_of_unat)
  moreover have "ptr = b + 8" by (simp add: b_def PREV_PTR_def TYPE_SIZE_def)
  ultimately show ?thesis by (simp add: NULL_def)
qed

text \<open>
  What \<open>mm_realloc\<close> copies, in general.  Let \<open>ptr\<close> be the payload of a block of a
  well-formed heap and the requested size be below \<open>2 ^ 52\<close>.  When \<open>mm_realloc\<close>
  returns an address other than \<open>ptr\<close>, the length it has passed to \<open>memcpy\<close> is the
  payload size of the new block (the request plus the two tags, rounded up to a multiple
  of 32, less the two tags), and the memory it leaves is that after \<open>mm_free\<close> and
  \<open>mm_malloc\<close> with that many bytes copied from \<open>ptr\<close> to the new payload.  The old
  payload size plays no part.  And \<open>mm_realloc\<close> does return when the block before that
  of \<open>ptr\<close> is not free and the data segment has room for the request and 65583 bytes
  more.
\<close>

lemma mm_realloc_moved:
  assumes ok: "heap_ok s (xs @ PREV_PTR ptr # ys)"
    and small: "unat sz < 2 ^ 52"
  shows "(\<forall>new_ptr s' copied.
        mm_realloc_copy ptr sz s = Some (Inr (new_ptr, s', copied)) \<longrightarrow> new_ptr \<noteq> ptr \<longrightarrow>
        copied = Some (of_nat (round_up 32 (unat sz + 16)) - 2 * TYPE_SIZE)
        \<and> (\<exists>s1 s2. mm_free ptr s = Inr s1
              \<and> mm_malloc sz (s1\<lparr>get_free_block := Some ap_NextFit,
                    next_block := PREV_PTR ptr\<rparr>) = Some (Inr (new_ptr, s2))
              \<and> (\<forall>a. mem s' a =
                    (if (a - new_ptr) AND 7 = 0
                        \<and> a - new_ptr < of_nat (round_up 32 (unat sz + 16)) - 2 * TYPE_SIZE
                     then mem s2 (ptr + (a - new_ptr)) else mem s2 a))))
     \<and> ((xs = [] \<or> GET_STATUS (mem s) (last xs) \<noteq> FREE)
          \<and> unat (ds_break (dseg s)) + unat sz + 65583 \<le> unat (ds_limit (dseg s)) \<longrightarrow>
        (\<exists>new_ptr s' copied. mm_realloc_copy ptr sz s = Some (Inr (new_ptr, s', copied))))"
proof -
  have 1: "(\<forall>new_ptr s' copied.
        mm_realloc_copy ptr sz s = Some (Inr (new_ptr, s', copied)) \<longrightarrow> new_ptr \<noteq> ptr \<longrightarrow>
        copied = Some (of_nat (round_up 32 (unat sz + 16)) - 2 * TYPE_SIZE)
        \<and> (\<exists>s1 s2. mm_free ptr s = Inr s1
              \<and> mm_malloc sz (s1\<lparr>get_free_block := Some ap_NextFit,
                    next_block := PREV_PTR ptr\<rparr>) = Some (Inr (new_ptr, s2))
              \<and> (\<forall>a. mem s' a =
                    (if (a - new_ptr) AND 7 = 0
                        \<and> a - new_ptr < of_nat (round_up 32 (unat sz + 16)) - 2 * TYPE_SIZE
                     then mem s2 (ptr + (a - new_ptr)) else mem s2 a))))"
  proof (intro allI impI)
  fix new_ptr s' copied
  assume ret: "mm_realloc_copy ptr sz s = Some (Inr (new_ptr, s', copied))"
    and moved: "new_ptr \<noteq> ptr"
  have nn: "ptr \<noteq> NULL" using ok by (rule block_ptr_not_NULL)
  have i: "mm_initialized s \<noteq> 0" using ok by (rule heap_okD)
  from mm_free_ok [OF ok] obtain s1 bs1 where
    f: "mm_free ptr s = Inr s1" and ok1: "heap_ok s1 bs1"
    by blast
  let ?s1 = "s1\<lparr>get_free_block := Some ap_NextFit, next_block := PREV_PTR ptr\<rparr>"
  have ok1': "heap_ok ?s1 bs1" using ok1 by simp
  have nf: "get_free_block ?s1 = Some ap_NextFit" by simp
  from ret nn i f obtain s2 where
    m: "mm_malloc sz ?s1 = Some (Inr (new_ptr, s2))"
    and c: "copied = (if new_ptr \<noteq> ptr then Some (realloc_copy_len s2) else None)"
    and ms: "mem s' = (if new_ptr \<noteq> ptr
        then memcpy (mem s2) new_ptr ptr (realloc_copy_len s2) else mem s2)"
    by (auto simp: mm_realloc_copy_def Let_def split: option.splits sum.splits)
  from mm_malloc_nf_cursor [OF ok1' nf small m]
  have "GET (mem s2) (next_block s2) = PACK (of_nat (round_up 32 (unat sz + 16))) ALLOC"
    by simp
  moreover from req_size [OF small]
  have "32 dvd unat (of_nat (round_up 32 (unat sz + 16)) :: 64 word)" by auto
  ultimately have "GET_SIZE (mem s2) (next_block s2) = of_nat (round_up 32 (unat sz + 16))"
    by (simp add: GET_SIZE_def tag_simps)
  then have n: "realloc_copy_len s2 = of_nat (round_up 32 (unat sz + 16)) - 2 * TYPE_SIZE"
    by (simp add: realloc_copy_len_def)
  from ms moved n have cp: "\<forall>a. mem s' a =
      (if (a - new_ptr) AND 7 = 0
          \<and> a - new_ptr < of_nat (round_up 32 (unat sz + 16)) - 2 * TYPE_SIZE
       then mem s2 (ptr + (a - new_ptr)) else mem s2 a)"
    by (simp add: memcpy_def Let_def)
  from c moved n
  have len: "copied = Some (of_nat (round_up 32 (unat sz + 16)) - 2 * TYPE_SIZE)"
    by simp
  from f m cp
  have "\<exists>s1 s2. mm_free ptr s = Inr s1
      \<and> mm_malloc sz (s1\<lparr>get_free_block := Some ap_NextFit,
            next_block := PREV_PTR ptr\<rparr>) = Some (Inr (new_ptr, s2))
      \<and> (\<forall>a. mem s' a =
            (if (a - new_ptr) AND 7 = 0
                \<and> a - new_ptr < of_nat (round_up 32 (unat sz + 16)) - 2 * TYPE_SIZE
             then mem s2 (ptr + (a - new_ptr)) else mem s2 a))"
    by - (rule exI [of _ s1], rule exI [of _ s2], simp)
  with len
  show "copied = Some (of_nat (round_up 32 (unat sz + 16)) - 2 * TYPE_SIZE)
        \<and> (\<exists>s1 s2. mm_free ptr s = Inr s1
              \<and> mm_malloc sz (s1\<lparr>get_free_block := Some ap_NextFit,
                    next_block := PREV_PTR ptr\<rparr>) = Some (Inr (new_ptr, s2))
              \<and> (\<forall>a. mem s' a =
                    (if (a - new_ptr) AND 7 = 0
                        \<and> a - new_ptr < of_nat (round_up 32 (unat sz + 16)) - 2 * TYPE_SIZE
                     then mem s2 (ptr + (a - new_ptr)) else mem s2 a)))"
    by (rule conjI)
  qed
  have 2: "((xs = [] \<or> GET_STATUS (mem s) (last xs) \<noteq> FREE)
          \<and> unat (ds_break (dseg s)) + unat sz + 65583 \<le> unat (ds_limit (dseg s)) \<longrightarrow>
        (\<exists>new_ptr s' copied. mm_realloc_copy ptr sz s = Some (Inr (new_ptr, s', copied))))"
  proof (rule impI)
  assume a: "(xs = [] \<or> GET_STATUS (mem s) (last xs) \<noteq> FREE)
      \<and> unat (ds_break (dseg s)) + unat sz + 65583 \<le> unat (ds_limit (dseg s))"
  have nn: "ptr \<noteq> NULL" using ok by (rule block_ptr_not_NULL)
  have i: "mm_initialized s \<noteq> 0" using ok by (rule heap_okD)
  from mm_free_ok [OF ok] a obtain s1 ys' where
    f: "mm_free ptr s = Inr s1" and ok1: "heap_ok s1 (xs @ PREV_PTR ptr # ys')"
    and d: "ds_limit (dseg s1) = ds_limit (dseg s)"
      "unat (ds_break (dseg s1)) \<le> unat (ds_break (dseg s))"
    by (auto split: if_splits)
  let ?s1 = "s1\<lparr>get_free_block := Some ap_NextFit, next_block := PREV_PTR ptr\<rparr>"
  let ?bs = "xs @ PREV_PTR ptr # ys'"
  have ok1': "heap_ok ?s1 ?bs" using ok1 by simp
  have nf: "get_free_block ?s1 = Some ap_NextFit" by simp
  have cur: "ap_NextFit = ap_NextFit \<longrightarrow> next_block ?s1 \<in> set ?bs" by simp
  have room: "unat (ds_break (dseg ?s1)) + unat sz + 65583 \<le> unat (ds_limit (dseg ?s1))"
    using a d by simp
  from mm_malloc_returns [OF ok1' nf cur small room] obtain p s2 where
    m: "mm_malloc sz ?s1 = Some (Inr (p, s2))"
    by blast
  with nn i f show "\<exists>new_ptr s' copied. mm_realloc_copy ptr sz s = Some (Inr (new_ptr, s', copied))"
    by (simp add: mm_realloc_copy_def Let_def)
  qed
  from 1 2 show ?thesis by (rule conjI)
qed

text \<open>
  \<open>three_heap\<close> is the state after \<open>mm_init\<close> under first fit and three calls
  \<open>mm_malloc(16)\<close>: three allocated blocks of 32 bytes at \<open>0x10000020\<close>, \<open>0x10000040\<close>
  and \<open>0x10000060\<close> and a free block of 65376 bytes.
\<close>

definition three_heap :: mm_state where
  "three_heap =
     \<lparr>mem = (\<lambda>a. 0)
        (0x10000018 := 1, 0x1000FFE0 := 1, 0x10000020 := 33, 0x10000038 := 33,
         0x10000040 := 33, 0x10000058 := 33, 0x10000060 := 33, 0x10000078 := 33,
         0x10000080 := 65376, 0x1000FFD8 := 65376),
      dseg = \<lparr>ds_start = 0x10000000, ds_break = 0x10010000, ds_limit = 0x10100000,
               ds_pagesize = 4096\<rparr>,
      ds_heap_start = 0x10000000, ds_heap_brk = 0x10010000,
      heap_start = 0x10000020, heap_end = 0x1000FFE0, next_block = 0x10000020,
      PAGESIZE = 4096, get_free_block = Some ap_FirstFit, mm_initialized = 1,
      mm_loglevel = 0\<rparr>"

lemma run_three_heap:
  "run [Init ap_FirstFit, Malloc 16, Malloc 16, Malloc 16] (mm_boot (ds_boot 0x10100000))
     = Some (Inr ([0x10000028, 0x10000048, 0x10000068], three_heap))"
  by (simp add: three_heap_def run_defs)

lemma heap_ok_three_heap:
  "heap_ok three_heap ([0x10000020] @ PREV_PTR 0x10000048 # [0x10000060, 0x10000080])"
  by (simp add: heap_ok_def three_heap_def block_ok_def macro_defs)

lemma mm_realloc_moved_example:
  "heap_ok three_heap ([0x10000020] @ PREV_PTR 0x10000048 # [0x10000060, 0x10000080])
   \<and> unat (100 :: 64 word) < 2 ^ 52
   \<and> GET_STATUS (mem three_heap) (last [0x10000020]) \<noteq> FREE
   \<and> unat (ds_break (dseg three_heap)) + unat (100 :: 64 word) + 65583
       \<le> unat (ds_limit (dseg three_heap))
   \<and> (0x10000088 :: addr) \<noteq> 0x10000048
   \<and> (of_nat (round_up 32 (unat (100 :: 64 word) + 16)) - 2 * TYPE_SIZE :: 64 word) = 112
   \<and> (\<exists>new_ptr s' copied.
        mm_realloc_copy 0x10000048 100 three_heap = Some (Inr (new_ptr, s', copied)))
   \<and> (\<exists>s'. mm_realloc_copy 0x10000048 100 three_heap
        = Some (Inr (0x10000088, s',
            Some (of_nat (round_up 32 (unat (100 :: 64 word) + 16)) - 2 * TYPE_SIZE))))"
proof -
  have s: "unat (100 :: 64 word) < 2 ^ 52" by simp
  have a: "GET_STATUS (mem three_heap) (last [0x10000020]) \<noteq> FREE"
    by (simp add: three_heap_def macro_defs)
  have b: "unat (ds_break (dseg three_heap)) + unat (100 :: 64 word) + 65583
       \<le> unat (ds_limit (dseg three_heap))"
    by (simp add: three_heap_def)
  have n: "(0x10000088 :: addr) \<noteq> 0x10000048" by simp
  have u: "(of_nat (round_up 32 (unat (100 :: 64 word) + 16)) - 2 * TYPE_SIZE :: 64 word) = 112"
    by (simp add: round_up_def TYPE_SIZE_def)
  have "\<exists>s' c. mm_realloc_copy 0x10000048 100 three_heap = Some (Inr (0x10000088, s', c))"
    by (simp add: three_heap_def run_defs)
  then obtain s' c where
    r: "mm_realloc_copy 0x10000048 100 three_heap = Some (Inr (0x10000088, s', c))"
    by blast
  note t = mm_realloc_moved [OF heap_ok_three_heap s]
  from t r n have "c = Some (of_nat (round_up 32 (unat (100 :: 64 word) + 16)) - 2 * TYPE_SIZE)"
    by blast
  moreover from t a b
  have "\<exists>new_ptr s' copied.
        mm_realloc_copy 0x10000048 100 three_heap = Some (Inr (new_ptr, s', copied))"
    by blast
  ultimately show ?thesis using heap_ok_three_heap s a b n u r by blast
qed

end
